theory Spec2Isabelle
  imports Complex_Main "HOL-Library.Monad_Syntax" "HOL-Library.Tree"
    "HOL-Library.List_Lexorder" "HOL-Library.Char_ord"
begin

section \<open>The heap: nodes, pointers, allocation\<close>

text \<open>
  A pointer \<^verbatim>\<open>Node*\<close> is an \<open>addr option\<close>: \<open>None\<close> is \<^verbatim>\<open>nullptr\<close>. The free store is a list
  of cells; the cell at an address is \<open>Some\<close> node while the node is allocated and \<open>None\<close>
  once it has been deleted. \<^verbatim>\<open>new\<close> appends a cell, so the address it returns is fresh.

  The struct \<^verbatim>\<open>Node\<close> of BinarySearchTree.hpp (lines 23-35); its fields \<^verbatim>\<open>key_\<close>,
  \<^verbatim>\<open>value_\<close>, \<^verbatim>\<open>left_\<close>, \<^verbatim>\<open>right_\<close>, \<^verbatim>\<open>parent_\<close> are written \<open>nkey\<close>, \<open>nvalue\<close>,
  \<open>nleft\<close>, \<open>nright\<close>, \<open>nparent\<close>.
\<close>

type_synonym addr = nat

record ('k, 'v) node =
  nkey :: 'k
  nvalue :: 'v
  nleft :: "addr option"
  nright :: "addr option"
  nparent :: "addr option"

type_synonym ('k, 'v) heap = "('k, 'v) node option list"

definition cell :: "('k, 'v) heap \<Rightarrow> addr \<Rightarrow> ('k, 'v) node option" where
  "cell h a = (if a < length h then h ! a else None)"

text \<open>
  Every function that follows a pointer returns an \<open>option\<close>: \<open>None\<close> means that the call
  has no defined result, because it dereferences a pointer that is null or not allocated
  (undefined behaviour in C++), or because its loop or recursion does not end.
\<close>

text \<open>\<^verbatim>\<open>new Node<Key, Value>( key, value )\<close>: the constructor (lines 465-468) sets key and
  value, the default member initialisers set the three links to \<^verbatim>\<open>nullptr\<close>.\<close>

definition new_Node :: "('k, 'v) heap \<Rightarrow> 'k \<Rightarrow> 'v \<Rightarrow> ('k, 'v) heap \<times> addr" where
  "new_Node h k v =
     (h @ [Some \<lparr>nkey = k, nvalue = v, nleft = None, nright = None, nparent = None\<rparr>],
      length h)"

text \<open>\<^verbatim>\<open>delete node\<close> for a non-null pointer.\<close>

definition delete_Node :: "('k, 'v) heap \<Rightarrow> addr \<Rightarrow> ('k, 'v) heap option" where
  "delete_Node h a = (case cell h a of None \<Rightarrow> None | Some n \<Rightarrow> Some (h[a := None]))"

text \<open>An assignment to a field through a pointer, \<^verbatim>\<open>p->field = x\<close>.\<close>

definition update_node ::
  "('k, 'v) heap \<Rightarrow> addr \<Rightarrow> (('k, 'v) node \<Rightarrow> ('k, 'v) node) \<Rightarrow> ('k, 'v) heap option" where
  "update_node h a f = (case cell h a of None \<Rightarrow> None | Some n \<Rightarrow> Some (h[a := Some (f n)]))"

section \<open>The operations of BinarySearchTree\<close>

text \<open>
  A \<^verbatim>\<open>BinarySearchTree\<close> object has one field, \<^verbatim>\<open>root_\<close>; the member functions take the heap
  and the root pointer, and the ones that assign to \<^verbatim>\<open>root_\<close> return the new one. The flag
  \<open>iter\<close> says whether the macro \<^verbatim>\<open>USING_ITERATIVE_FUNCTIONS\<close> is defined; as the file is
  distributed it is not (line 11 is commented out), so \<open>iter = False\<close>. Keys are of a
  linearly ordered type, as \<^verbatim>\<open>std::string\<close> and \<^verbatim>\<open>unsigned\<close>, the two key types of the
  test driver, are.
\<close>

subsection \<open>Search (lines 93-142)\<close>

datatype error = Key_not_found

partial_function (option) searchIterative_loop ::
  "('k::linorder, 'v) heap \<Rightarrow> addr option \<Rightarrow> 'k \<Rightarrow> addr option option" where
  "searchIterative_loop h cur k =
     (case cur of
        None \<Rightarrow> Some None
      | Some c \<Rightarrow>
          (case cell h c of
             None \<Rightarrow> None
           | Some n \<Rightarrow>
               if k = nkey n then Some cur
               else if k < nkey n then searchIterative_loop h (nleft n) k
               else searchIterative_loop h (nright n) k))"

definition searchIterative ::
  "('k::linorder, 'v) heap \<Rightarrow> addr option \<Rightarrow> 'k \<Rightarrow> addr option option" where
  "searchIterative h rt k = searchIterative_loop h rt k"

partial_function (option) searchRecursive ::
  "('k::linorder, 'v) heap \<Rightarrow> addr option \<Rightarrow> 'k \<Rightarrow> addr option option" where
  "searchRecursive h node k =
     (case node of
        None \<Rightarrow> Some None
      | Some a \<Rightarrow>
          (case cell h a of
             None \<Rightarrow> None
           | Some n \<Rightarrow>
               if k = nkey n then Some node
               else if k < nkey n then searchRecursive h (nleft n) k
               else searchRecursive h (nright n) k))"

text \<open>\<^verbatim>\<open>search\<close> is \<^verbatim>\<open>const\<close> and writes to no node: it returns a value or throws, and the
  heap and the root are the ones it was given.\<close>

definition search ::
  "bool \<Rightarrow> ('k::linorder, 'v) heap \<Rightarrow> addr option \<Rightarrow> 'k \<Rightarrow> (error + 'v) option" where
  "search iter h rt k = do {
     node \<leftarrow> (if iter then searchIterative h rt k else searchRecursive h rt k);
     case node of
       None \<Rightarrow> Some (Inl Key_not_found)
     | Some a \<Rightarrow> do { n \<leftarrow> cell h a; Some (Inr (nvalue n)) }
   }"

subsection \<open>Insert (lines 150-241)\<close>

partial_function (option) insertIterative_loop ::
  "('k::linorder, 'v) heap \<Rightarrow> addr \<Rightarrow> addr option \<Rightarrow> ('k, 'v) heap option" where
  "insertIterative_loop h node cur =
     (case cur of
        None \<Rightarrow> Some h
      | Some c \<Rightarrow> do {
          n \<leftarrow> cell h node;
          cn \<leftarrow> cell h c;
          if nkey n < nkey cn then
            (if nleft cn = None then do {
               h1 \<leftarrow> update_node h c (\<lambda>x. x\<lparr>nleft := Some node\<rparr>);
               h2 \<leftarrow> update_node h1 node (\<lambda>x. x\<lparr>nparent := Some c\<rparr>);
               insertIterative_loop h2 node None
             } else insertIterative_loop h node (nleft cn))
          else
            (if nright cn = None then do {
               h1 \<leftarrow> update_node h c (\<lambda>x. x\<lparr>nright := Some node\<rparr>);
               h2 \<leftarrow> update_node h1 node (\<lambda>x. x\<lparr>nparent := Some c\<rparr>);
               insertIterative_loop h2 node None
             } else insertIterative_loop h node (nright cn))
        })"

definition insertIterative ::
  "('k::linorder, 'v) heap \<Rightarrow> addr option \<Rightarrow> addr \<Rightarrow> (('k, 'v) heap \<times> addr option) option" where
  "insertIterative h rt node = do {
     h1 \<leftarrow> update_node h node (\<lambda>x. x\<lparr>nleft := None\<rparr>);
     h2 \<leftarrow> update_node h1 node (\<lambda>x. x\<lparr>nright := None\<rparr>);
     if rt = None then do {
       h3 \<leftarrow> update_node h2 node (\<lambda>x. x\<lparr>nparent := None\<rparr>);
       Some (h3, Some node)
     } else do {
       h3 \<leftarrow> insertIterative_loop h2 node rt;
       Some (h3, rt)
     }
   }"

partial_function (option) insertRecursive ::
  "('k::linorder, 'v) heap \<Rightarrow> addr \<Rightarrow> addr \<Rightarrow> ('k, 'v) heap option" where
  "insertRecursive h parent nodeToInsert = do {
     n \<leftarrow> cell h nodeToInsert;
     pn \<leftarrow> cell h parent;
     if nkey n < nkey pn then
       (case nleft pn of
          None \<Rightarrow> do {
            h1 \<leftarrow> update_node h parent (\<lambda>x. x\<lparr>nleft := Some nodeToInsert\<rparr>);
            update_node h1 nodeToInsert (\<lambda>x. x\<lparr>nparent := Some parent\<rparr>)
          }
        | Some l \<Rightarrow> insertRecursive h l nodeToInsert)
     else
       (case nright pn of
          None \<Rightarrow> do {
            h1 \<leftarrow> update_node h parent (\<lambda>x. x\<lparr>nright := Some nodeToInsert\<rparr>);
            update_node h1 nodeToInsert (\<lambda>x. x\<lparr>nparent := Some parent\<rparr>)
          }
        | Some r \<Rightarrow> insertRecursive h r nodeToInsert)
   }"

definition insert_bst ::
  "bool \<Rightarrow> ('k::linorder, 'v) heap \<Rightarrow> addr option \<Rightarrow> 'k \<Rightarrow> 'v \<Rightarrow>
     (('k, 'v) heap \<times> addr option) option" where
  "insert_bst iter h rt k v =
     (case new_Node h k v of
        (h0, node) \<Rightarrow>
          if iter then insertIterative h0 rt node
          else
            (case rt of
               None \<Rightarrow> Some (h0, Some node)
             | Some r \<Rightarrow> do { h1 \<leftarrow> insertRecursive h0 r node; Some (h1, rt) }))"

subsection \<open>Remove (lines 250-330)\<close>

definition replaceChild ::
  "('k, 'v) heap \<Rightarrow> addr option \<Rightarrow> addr option \<Rightarrow> addr option \<Rightarrow> (('k, 'v) heap \<times> bool) option" where
  "replaceChild h parent currentChild newChild =
     (case parent of
        None \<Rightarrow> None
      | Some p \<Rightarrow> do {
          pn \<leftarrow> cell h p;
          if nleft pn \<noteq> currentChild \<and> nright pn \<noteq> currentChild then Some (h, False)
          else do {
            h1 \<leftarrow> (if nleft pn = currentChild
                   then update_node h p (\<lambda>x. x\<lparr>nleft := newChild\<rparr>)
                   else update_node h p (\<lambda>x. x\<lparr>nright := newChild\<rparr>));
            h2 \<leftarrow> (case newChild of
                     None \<Rightarrow> Some h1
                   | Some c \<Rightarrow> update_node h1 c (\<lambda>x. x\<lparr>nparent := parent\<rparr>));
            Some (h2, True)
          }
        })"

text \<open>The loop of line 278, \<^verbatim>\<open>while( succNode->left_ != nullptr ) succNode = succNode->left_\<close>.\<close>

partial_function (option) succ_loop :: "('k, 'v) heap \<Rightarrow> addr \<Rightarrow> addr option" where
  "succ_loop h succNode = do {
     sn \<leftarrow> cell h succNode;
     case nleft sn of
       None \<Rightarrow> Some succNode
     | Some l \<Rightarrow> succ_loop h l
   }"

text \<open>\<^verbatim>\<open>remove( Node* )\<close>.\<close>

partial_function (option) remove_node ::
  "('k, 'v) heap \<Rightarrow> addr option \<Rightarrow> addr option \<Rightarrow> (('k, 'v) heap \<times> addr option) option" where
  "remove_node h rt node =
     (case node of
        None \<Rightarrow> Some (h, rt)
      | Some a \<Rightarrow> do {
          n \<leftarrow> cell h a;
          if nleft n \<noteq> None \<and> nright n \<noteq> None then
            (case nright n of
               None \<Rightarrow> None
             | Some r \<Rightarrow> do {
                 succNode \<leftarrow> succ_loop h r;
                 sn \<leftarrow> cell h succNode;
                 h1 \<leftarrow> update_node h a (\<lambda>x. x\<lparr>nkey := nkey sn\<rparr>);
                 sn1 \<leftarrow> cell h1 succNode;
                 h2 \<leftarrow> update_node h1 a (\<lambda>x. x\<lparr>nvalue := nvalue sn1\<rparr>);
                 remove_node h2 rt (Some succNode)
               })
          else do {
            (h1, rt1) \<leftarrow>
              (if node = rt then do {
                 let rt1 = (if nleft n \<noteq> None then nleft n else nright n);
                 h1 \<leftarrow> (case rt1 of
                          None \<Rightarrow> Some h
                        | Some r \<Rightarrow> update_node h r (\<lambda>x. x\<lparr>nparent := None\<rparr>));
                 Some (h1, rt1)
               }
               else if nleft n \<noteq> None then do {
                 (h1, b) \<leftarrow> replaceChild h (nparent n) node (nleft n);
                 Some (h1, rt)
               }
               else do {
                 (h1, b) \<leftarrow> replaceChild h (nparent n) node (nright n);
                 Some (h1, rt)
               });
            h2 \<leftarrow> delete_Node h1 a;
            Some (h2, rt1)
          }
        })"

text \<open>\<^verbatim>\<open>remove( const Key & )\<close>.\<close>

definition remove_bst ::
  "bool \<Rightarrow> ('k::linorder, 'v) heap \<Rightarrow> addr option \<Rightarrow> 'k \<Rightarrow> (('k, 'v) heap \<times> addr option) option" where
  "remove_bst iter h rt k = do {
     node \<leftarrow> (if iter then searchIterative h rt k else searchRecursive h rt k);
     remove_node h rt node
   }"

subsection \<open>Print and height (lines 338-383)\<close>

text \<open>\<^verbatim>\<open>printInorder\<close> writes one line per node to \<^verbatim>\<open>std::cout\<close>; the model returns the
  (key, value) pairs in the order in which they are written.\<close>

partial_function (option) printInorder ::
  "('k, 'v) heap \<Rightarrow> addr option \<Rightarrow> ('k \<times> 'v) list option" where
  "printInorder h node =
     (case node of
        None \<Rightarrow> Some []
      | Some a \<Rightarrow> do {
          n \<leftarrow> cell h a;
          ls \<leftarrow> printInorder h (nleft n);
          rs \<leftarrow> printInorder h (nright n);
          Some (ls @ [(nkey n, nvalue n)] @ rs)
        })"

partial_function (option) getHeight :: "('k, 'v) heap \<Rightarrow> addr option \<Rightarrow> int option" where
  "getHeight h node =
     (case node of
        None \<Rightarrow> Some (- 1)
      | Some a \<Rightarrow> do {
          n \<leftarrow> cell h a;
          leftHeight \<leftarrow> getHeight h (nleft n);
          rightHeight \<leftarrow> getHeight h (nright n);
          Some (1 + max leftHeight rightHeight)
        })"

subsection \<open>Copy, assignment, clear (lines 391-457)\<close>

partial_function (option) makeCopy ::
  "('k, 'v) heap \<Rightarrow> addr option \<Rightarrow> (('k, 'v) heap \<times> addr option) option" where
  "makeCopy h originalNode =
     (case originalNode of
        None \<Rightarrow> Some (h, None)
      | Some a \<Rightarrow> do {
          orig \<leftarrow> cell h a;
          (h1, node) \<leftarrow> Some (new_Node h (nkey orig) (nvalue orig));
          orig1 \<leftarrow> cell h1 a;
          (h2, l) \<leftarrow> makeCopy h1 (nleft orig1);
          h3 \<leftarrow> update_node h2 node (\<lambda>x. x\<lparr>nleft := l\<rparr>);
          orig3 \<leftarrow> cell h3 a;
          (h4, r) \<leftarrow> makeCopy h3 (nright orig3);
          h5 \<leftarrow> update_node h4 node (\<lambda>x. x\<lparr>nright := r\<rparr>);
          n5 \<leftarrow> cell h5 node;
          h6 \<leftarrow> (case nleft n5 of
                   None \<Rightarrow> Some h5
                 | Some c \<Rightarrow> update_node h5 c (\<lambda>x. x\<lparr>nparent := Some node\<rparr>));
          n6 \<leftarrow> cell h6 node;
          h7 \<leftarrow> (case nright n6 of
                   None \<Rightarrow> Some h6
                 | Some c \<Rightarrow> update_node h6 c (\<lambda>x. x\<lparr>nparent := Some node\<rparr>));
          Some (h7, Some node)
        })"

text \<open>The copy constructor: the new object's \<^verbatim>\<open>root_\<close> is \<^verbatim>\<open>makeCopy( original.root_ )\<close>.\<close>

definition copy_bst ::
  "('k, 'v) heap \<Rightarrow> addr option \<Rightarrow> (('k, 'v) heap \<times> addr option) option" where
  "copy_bst h original_root = makeCopy h original_root"

partial_function (option) clear_node :: "('k, 'v) heap \<Rightarrow> addr option \<Rightarrow> ('k, 'v) heap option" where
  "clear_node h node =
     (case node of
        None \<Rightarrow> Some h
      | Some a \<Rightarrow> do {
          n \<leftarrow> cell h a;
          h1 \<leftarrow> clear_node h (nleft n);
          n1 \<leftarrow> cell h1 a;
          h2 \<leftarrow> clear_node h1 (nright n1);
          delete_Node h2 a
        })"

definition clear_bst ::
  "('k, 'v) heap \<Rightarrow> addr option \<Rightarrow> (('k, 'v) heap \<times> addr option) option" where
  "clear_bst h rt = do { h1 \<leftarrow> clear_node h rt; Some (h1, None) }"

text \<open>
  \<^verbatim>\<open>operator=( BinarySearchTree rhs )\<close>: the parameter is passed by value, so \<open>rhs\<close> is
  copy-constructed from the right-hand side before the body runs; the body swaps the two
  roots; the destructor of \<open>rhs\<close>, which is \<^verbatim>\<open>clear()\<close>, runs when the call returns. The
  result is the heap and the root of \<^verbatim>\<open>*this\<close>.
\<close>

definition assign_bst ::
  "('k, 'v) heap \<Rightarrow> addr option \<Rightarrow> addr option \<Rightarrow> (('k, 'v) heap \<times> addr option) option" where
  "assign_bst h rt source_root = do {
     (h1, rhs_root) \<leftarrow> copy_bst h source_root;
     let temp = rhs_root;
     let rhs_root1 = rt;
     let rt1 = temp;
     (h2, rhs_root2) \<leftarrow> clear_bst h1 rhs_root1;
     Some (h2, rt1)
   }"

declare searchIterative_loop.simps [code] searchRecursive.simps [code]
  insertIterative_loop.simps [code] insertRecursive.simps [code] succ_loop.simps [code]
  remove_node.simps [code] printInorder.simps [code] getHeight.simps [code]
  makeCopy.simps [code] clear_node.simps [code]

section \<open>The tree that a heap holds\<close>

text \<open>
  What the heap holds below a pointer is described by a tree whose nodes carry the address,
  the key and the value of a heap node. \<open>rep h par t\<close> says that the heap \<open>h\<close> holds the
  tree \<open>t\<close> below a node whose parent link is \<open>par\<close>: the cell of every node of \<open>t\<close> has
  the key and the value of the node, links to the roots of its two subtrees, and a parent
  link to the node above. The operations on such trees below say what the functions of
  the source do to the heap; each is tied to its function by a lemma.
\<close>

type_synonym ('k, 'v) atree = "(addr \<times> 'k \<times> 'v) tree"

fun ptr :: "('k, 'v) atree \<Rightarrow> addr option" where
  "ptr Leaf = None"
| "ptr (Node l (a, k, v) r) = Some a"

fun rep :: "('k, 'v) heap \<Rightarrow> addr option \<Rightarrow> ('k, 'v) atree \<Rightarrow> bool" where
  "rep h par Leaf = True"
| "rep h par (Node l (a, k, v) r) =
     (cell h a = Some \<lparr>nkey = k, nvalue = v, nleft = ptr l, nright = ptr r, nparent = par\<rparr>
      \<and> rep h (Some a) l \<and> rep h (Some a) r)"

text \<open>The addresses and the (key, value) entries of a tree, in in-order.\<close>

definition addrs :: "('k, 'v) atree \<Rightarrow> addr list" where
  "addrs t = map fst (inorder t)"

definition entries :: "('k, 'v) atree \<Rightarrow> ('k \<times> 'v) list" where
  "entries t = map snd (inorder t)"

text \<open>The ordering property: at every node, the keys of the left subtree are less than the
  node's key and the keys of the right subtree are greater or equal.\<close>

fun ordered :: "('k::linorder, 'v) atree \<Rightarrow> bool" where
  "ordered Leaf = True"
| "ordered (Node l (a, k, v) r) =
     ((\<forall>x \<in> set (entries l). fst x < k) \<and> (\<forall>x \<in> set (entries r). k \<le> fst x)
      \<and> ordered l \<and> ordered r)"

text \<open>The first node with the key on the top-down descent, left when the key is less and
  right otherwise.\<close>

fun lookup_td :: "'k::linorder \<Rightarrow> ('k, 'v) atree \<Rightarrow> (addr \<times> 'k \<times> 'v) option" where
  "lookup_td x Leaf = None"
| "lookup_td x (Node l (a, k, v) r) =
     (if x = k then Some (a, k, v) else if x < k then lookup_td x l else lookup_td x r)"

text \<open>The height as \<^verbatim>\<open>getHeight\<close> counts it: -1 for the empty tree.\<close>

fun cheight :: "'a tree \<Rightarrow> int" where
  "cheight Leaf = - 1"
| "cheight (Node l a r) = 1 + max (cheight l) (cheight r)"

text \<open>Insertion of a node: left when its key is less, right otherwise, down to a free
  place.\<close>

fun ins :: "addr \<times> 'k::linorder \<times> 'v \<Rightarrow> ('k, 'v) atree \<Rightarrow> ('k, 'v) atree" where
  "ins x Leaf = Node Leaf x Leaf"
| "ins x (Node l (b, k, v) r) =
     (if fst (snd x) < k then Node (ins x l) (b, k, v) r else Node l (b, k, v) (ins x r))"

text \<open>A tree object: the root pointer points to a tree whose root has a null parent link
  and whose nodes are distinct.\<close>

definition is_tree :: "('k, 'v) heap \<Rightarrow> addr option \<Rightarrow> ('k, 'v) atree \<Rightarrow> bool" where
  "is_tree h rt t = (rt = ptr t \<and> rep h None t \<and> distinct (addrs t))"

text \<open>A binary search tree: a tree object whose tree is ordered.\<close>

definition is_bst :: "('k::linorder, 'v) heap \<Rightarrow> addr option \<Rightarrow> ('k, 'v) atree \<Rightarrow> bool" where
  "is_bst h rt t = (is_tree h rt t \<and> ordered t)"

text \<open>The leftmost node of a tree, and the removal of the node at an address: a node with
  two children takes the key and the value of its successor, the leftmost node of its
  right subtree, which is removed in its place; a node with at most one child is replaced
  by that child.\<close>

fun leftmost :: "'a tree \<Rightarrow> 'a option" where
  "leftmost Leaf = None"
| "leftmost (Node l x r) = (case leftmost l of None \<Rightarrow> Some x | Some y \<Rightarrow> Some y)"

fun del_node :: "addr \<Rightarrow> ('k, 'v) atree \<Rightarrow> ('k, 'v) atree" where
  "del_node a Leaf = Leaf"
| "del_node a (Node l (b, k, v) r) =
     (if a \<noteq> b then Node (del_node a l) (b, k, v) (del_node a r)
      else if l \<noteq> Leaf \<and> r \<noteq> Leaf then
        (case leftmost r of
           None \<Rightarrow> l
         | Some (s, ks, vs) \<Rightarrow> Node l (b, ks, vs) (del_node s r))
      else if l \<noteq> Leaf then l else r)"

text \<open>\<open>frame h h' A\<close>: the heap \<open>h'\<close> extends \<open>h\<close> and agrees with it on every address of
  \<open>h\<close> outside \<open>A\<close>.\<close>

definition frame :: "('k, 'v) heap \<Rightarrow> ('k, 'v) heap \<Rightarrow> addr set \<Rightarrow> bool" where
  "frame h h' A = (length h \<le> length h' \<and> (\<forall>x. x < length h \<longrightarrow> x \<notin> A \<longrightarrow> cell h' x = cell h x))"

text \<open>\<^verbatim>\<open>remove( key )\<close> on a tree: the first node of the descent is removed, if there is
  one.\<close>

definition remove_abs :: "'k::linorder \<Rightarrow> ('k, 'v) atree \<Rightarrow> ('k, 'v) atree" where
  "remove_abs k t = (case lookup_td k t of None \<Rightarrow> t | Some (a, k', v) \<Rightarrow> del_node a t)"

text \<open>The mutating operations of one tree object, and sequences of them.\<close>

datatype ('k, 'v) mutation = Insert 'k 'v | Remove 'k | Clear

fun mutate ::
  "bool \<Rightarrow> ('k::linorder, 'v) mutation \<Rightarrow> ('k, 'v) heap \<Rightarrow> addr option \<Rightarrow>
     (('k, 'v) heap \<times> addr option) option" where
  "mutate iter (Insert k v) h rt = insert_bst iter h rt k v"
| "mutate iter (Remove k) h rt = remove_bst iter h rt k"
| "mutate iter Clear h rt = clear_bst h rt"

fun mutates ::
  "bool \<Rightarrow> ('k::linorder, 'v) mutation list \<Rightarrow> ('k, 'v) heap \<Rightarrow> addr option \<Rightarrow>
     (('k, 'v) heap \<times> addr option) option" where
  "mutates iter [] h rt = Some (h, rt)"
| "mutates iter (m # ms) h rt = do { (h', rt') \<leftarrow> mutate iter m h rt; mutates iter ms h' rt' }"

section \<open>Programs over several trees\<close>

text \<open>
  A state is the heap and the \<^verbatim>\<open>root_\<close> of every \<^verbatim>\<open>BinarySearchTree\<close> object of the
  program; a command names the objects it works on by their index. \<open>New\<close> is the default
  constructor and \<open>Copy i\<close> the copy constructor: each adds an object. A command that names
  an object that does not exist has no result.
\<close>

datatype ('k, 'v) command = New | Mutate nat "('k, 'v) mutation" | Copy nat | Assign nat nat

type_synonym ('k, 'v) state = "('k, 'v) heap \<times> addr option list"

fun exec ::
  "bool \<Rightarrow> ('k::linorder, 'v) command \<Rightarrow> ('k, 'v) state \<Rightarrow> ('k, 'v) state option" where
  "exec iter New (h, rs) = Some (h, rs @ [None])"
| "exec iter (Mutate i m) (h, rs) =
     (if i < length rs
      then do { (h', r) \<leftarrow> mutate iter m h (rs ! i); Some (h', rs[i := r]) }
      else None)"
| "exec iter (Copy i) (h, rs) =
     (if i < length rs
      then do { (h', r) \<leftarrow> copy_bst h (rs ! i); Some (h', rs @ [r]) }
      else None)"
| "exec iter (Assign i j) (h, rs) =
     (if i < length rs \<and> j < length rs
      then do { (h', r) \<leftarrow> assign_bst h (rs ! i) (rs ! j); Some (h', rs[i := r]) }
      else None)"

fun run ::
  "bool \<Rightarrow> ('k::linorder, 'v) command list \<Rightarrow> ('k, 'v) state \<Rightarrow> ('k, 'v) state option" where
  "run iter [] s = Some s"
| "run iter (c # cs) s = do { s' \<leftarrow> exec iter c s; run iter cs s' }"

text \<open>The initial state: one tree, empty.\<close>

definition initial :: "('k, 'v) state" where
  "initial = ([], [None])"

text \<open>A program is valid for \<open>n\<close> objects when each command names objects that exist when
  it runs.\<close>

fun valid :: "nat \<Rightarrow> ('k, 'v) command \<Rightarrow> bool" where
  "valid n New = True"
| "valid n (Mutate i m) = (i < n)"
| "valid n (Copy i) = (i < n)"
| "valid n (Assign i j) = (i < n \<and> j < n)"

fun objects_after :: "nat \<Rightarrow> ('k, 'v) command \<Rightarrow> nat" where
  "objects_after n New = Suc n"
| "objects_after n (Mutate i m) = n"
| "objects_after n (Copy i) = Suc n"
| "objects_after n (Assign i j) = n"

fun valid_run :: "nat \<Rightarrow> ('k, 'v) command list \<Rightarrow> bool" where
  "valid_run n [] = True"
| "valid_run n (c # cs) = (valid n c \<and> valid_run (objects_after n c) cs)"

text \<open>The invariant: every object's root holds an ordered tree, and no two objects share a
  node.\<close>

definition state_inv :: "('k::linorder, 'v) state \<Rightarrow> ('k, 'v) atree list \<Rightarrow> bool" where
  "state_inv s ts =
     (case s of (h, rs) \<Rightarrow>
        length ts = length rs
        \<and> (\<forall>i < length rs. is_tree h (rs ! i) (ts ! i) \<and> ordered (ts ! i))
        \<and> (\<forall>i < length rs. \<forall>j < length rs. i \<noteq> j \<longrightarrow>
              set (addrs (ts ! i)) \<inter> set (addrs (ts ! j)) = {}))"

text \<open>The ordering property of a node, read off the heap with the program's own traversal:
  every key that \<^verbatim>\<open>printInorder\<close> writes for the left subtree is less than the node's key,
  and every key it writes for the right subtree is greater or equal.\<close>

definition node_ordered :: "('k::linorder, 'v) heap \<Rightarrow> addr \<Rightarrow> bool" where
  "node_ordered h a =
     (case cell h a of
        None \<Rightarrow> False
      | Some n \<Rightarrow>
          (case printInorder h (nleft n) of
             None \<Rightarrow> False
           | Some ls \<Rightarrow> \<forall>x \<in> set ls. fst x < nkey n)
          \<and> (case printInorder h (nright n) of
               None \<Rightarrow> False
             | Some rs \<Rightarrow> \<forall>x \<in> set rs. nkey n \<le> fst x))"

text \<open>The parent links of a node's children, and of a root.\<close>

definition child_ok :: "('k, 'v) heap \<Rightarrow> addr \<Rightarrow> addr option \<Rightarrow> bool" where
  "child_ok h a child =
     (case child of
        None \<Rightarrow> True
      | Some c \<Rightarrow> (case cell h c of None \<Rightarrow> False | Some cn \<Rightarrow> nparent cn = Some a))"

definition links_ok :: "('k, 'v) heap \<Rightarrow> addr \<Rightarrow> bool" where
  "links_ok h a =
     (case cell h a of
        None \<Rightarrow> False
      | Some n \<Rightarrow> child_ok h a (nleft n) \<and> child_ok h a (nright n))"

definition root_ok :: "('k, 'v) heap \<Rightarrow> addr option \<Rightarrow> bool" where
  "root_ok h rt =
     (case rt of
        None \<Rightarrow> True
      | Some r \<Rightarrow> (case cell h r of None \<Rightarrow> False | Some n \<Rightarrow> nparent n = None))"

section \<open>The scenario of the test driver\<close>

text \<open>
  A sequence of insertions into one tree; the five insertions of \<^verbatim>\<open>main\<close> (the unnamed
  source file, lines 14-18); the heap they build, and the tree it holds. The values are
  \<^verbatim>\<open>double\<close>s in the source; the tree stores and returns them and computes nothing with
  them, so the model writes the literals as rationals.
\<close>

fun inserts ::
  "bool \<Rightarrow> ('k::linorder \<times> 'v) list \<Rightarrow> ('k, 'v) heap \<Rightarrow> addr option \<Rightarrow>
     (('k, 'v) heap \<times> addr option) option" where
  "inserts iter [] h rt = Some (h, rt)"
| "inserts iter ((k, v) # kvs) h rt =
     do { (h', rt') \<leftarrow> insert_bst iter h rt k v; inserts iter kvs h' rt' }"

definition grades :: "(string \<times> rat) list" where
  "grades = [(''Ricardo'', 2.5), (''Ellen'', 3.5), (''Chen'', 2.5), (''Kevin'', 3.25),
     (''Kumar'', 3.05)]"

definition grade_heap :: "(string, rat) heap" where
  "grade_heap =
     [Some \<lparr>nkey = ''Ricardo'', nvalue = 2.5, nleft = Some 1, nright = None, nparent = None\<rparr>,
      Some \<lparr>nkey = ''Ellen'', nvalue = 3.5, nleft = Some 2, nright = Some 3, nparent = Some 0\<rparr>,
      Some \<lparr>nkey = ''Chen'', nvalue = 2.5, nleft = None, nright = None, nparent = Some 1\<rparr>,
      Some \<lparr>nkey = ''Kevin'', nvalue = 3.25, nleft = None, nright = Some 4, nparent = Some 1\<rparr>,
      Some \<lparr>nkey = ''Kumar'', nvalue = 3.05, nleft = None, nright = None, nparent = Some 3\<rparr>]"

definition grade_tree :: "(string, rat) atree" where
  "grade_tree =
     Node (Node (Node Leaf (2, ''Chen'', 2.5) Leaf) (1, ''Ellen'', 3.5)
             (Node Leaf (3, ''Kevin'', 3.25) (Node Leaf (4, ''Kumar'', 3.05) Leaf)))
          (0, ''Ricardo'', 2.5) Leaf"

text \<open>The program of \<^verbatim>\<open>main\<close>: two trees; five insertions into the first; the second is
  assigned the first; "Ellen" is removed from the second.\<close>

definition main_cmds :: "(string, rat) command list" where
  "main_cmds =
     [New,
      Mutate 0 (Insert ''Ricardo'' 2.5), Mutate 0 (Insert ''Ellen'' 3.5),
      Mutate 0 (Insert ''Chen'' 2.5), Mutate 0 (Insert ''Kevin'' 3.25),
      Mutate 0 (Insert ''Kumar'' 3.05),
      Assign 1 0,
      Mutate 1 (Remove ''Ellen'')]"

definition main_heap :: "(string, rat) heap" where
  "main_heap = grade_heap @
     [Some \<lparr>nkey = ''Ricardo'', nvalue = 2.5, nleft = Some 6, nright = None, nparent = None\<rparr>,
      Some \<lparr>nkey = ''Kevin'', nvalue = 3.25, nleft = Some 7, nright = Some 9, nparent = Some 5\<rparr>,
      Some \<lparr>nkey = ''Chen'', nvalue = 2.5, nleft = None, nright = None, nparent = Some 6\<rparr>,
      None,
      Some \<lparr>nkey = ''Kumar'', nvalue = 3.05, nleft = None, nright = None, nparent = Some 6\<rparr>]"

section \<open>Search and the traversals on a tree\<close>

lemma addrs_simps [simp]:
  "addrs Leaf = []" "addrs (Node l (a, k, v) r) = addrs l @ a # addrs r"
  by (simp_all add: addrs_def)

lemma entries_simps [simp]:
  "entries Leaf = []" "entries (Node l (a, k, v) r) = entries l @ (k, v) # entries r"
  by (simp_all add: entries_def)

lemma cell_update:
  "cell (h[a := x]) b = (if b = a \<and> a < length h then x else cell h b)"
  by (simp add: cell_def)

lemma cell_less: "cell h a = Some n \<Longrightarrow> a < length h"
  by (simp add: cell_def split: if_splits)

text \<open>A heap that agrees with \<open>h\<close> on the nodes of a tree holds the same tree.\<close>

lemma rep_frame:
  "rep h par t \<Longrightarrow> (\<And>a. a \<in> set (addrs t) \<Longrightarrow> cell h' a = cell h a) \<Longrightarrow> rep h' par t"
  by (induction t arbitrary: par) auto

lemma rep_allocated: "rep h par t \<Longrightarrow> a \<in> set (addrs t) \<Longrightarrow> \<exists>n. cell h a = Some n"
  by (induction t arbitrary: par) auto

lemma searchRecursive_rep:
  "rep h par t \<Longrightarrow> searchRecursive h (ptr t) x = Some (map_option fst (lookup_td x t))"
proof (induction t arbitrary: par)
  case Leaf
  show ?case by (subst searchRecursive.simps) simp
next
  case (Node l akv r)
  obtain a k v where akv: "akv = (a, k, v)" by (cases akv)
  from Node.prems have c: "rep h (Some a) l" "rep h (Some a) r" 
    and ce: "cell h a = Some \<lparr>nkey = k, nvalue = v, nleft = ptr l, nright = ptr r, nparent = par\<rparr>"
    by (simp_all add: akv)
  show ?case
    by (subst searchRecursive.simps) (simp add: akv ce Node.IH(1)[OF c(1)] Node.IH(2)[OF c(2)])
qed

lemma printInorder_rep: "rep h par t \<Longrightarrow> printInorder h (ptr t) = Some (entries t)"
proof (induction t arbitrary: par)
  case Leaf
  show ?case by (subst printInorder.simps) simp
next
  case (Node l akv r)
  obtain a k v where akv: "akv = (a, k, v)" by (cases akv)
  from Node.prems have c: "rep h (Some a) l" "rep h (Some a) r" 
    and ce: "cell h a = Some \<lparr>nkey = k, nvalue = v, nleft = ptr l, nright = ptr r, nparent = par\<rparr>"
    by (simp_all add: akv)
  show ?case
    by (subst printInorder.simps) (simp add: akv ce Node.IH(1)[OF c(1)] Node.IH(2)[OF c(2)])
qed

lemma getHeight_rep: "rep h par t \<Longrightarrow> getHeight h (ptr t) = Some (cheight t)"
proof (induction t arbitrary: par)
  case Leaf
  show ?case by (subst getHeight.simps) simp
next
  case (Node l akv r)
  obtain a k v where akv: "akv = (a, k, v)" by (cases akv)
  from Node.prems have c: "rep h (Some a) l" "rep h (Some a) r" 
    and ce: "cell h a = Some \<lparr>nkey = k, nvalue = v, nleft = ptr l, nright = ptr r, nparent = par\<rparr>"
    by (simp_all add: akv)
  show ?case
    by (subst getHeight.simps) (simp add: akv ce Node.IH(1)[OF c(1)] Node.IH(2)[OF c(2)])
qed

text \<open>The loop of \<^verbatim>\<open>searchIterative\<close> and the recursion of \<^verbatim>\<open>searchRecursive\<close> have the
  same results on every heap, also where the heap holds no tree.\<close>

lemma search_loop_eq1: "searchIterative_loop h p k = Some y \<Longrightarrow> searchRecursive h p k = Some y"
proof (induction rule: searchIterative_loop.raw_induct[rotated 1, consumes 1])
  case (1 f h cur k y)
  then show ?case
    by (subst searchRecursive.simps) (auto split: option.splits if_splits)
qed

lemma search_loop_eq2: "searchRecursive h p k = Some y \<Longrightarrow> searchIterative_loop h p k = Some y"
proof (induction rule: searchRecursive.raw_induct[rotated 1, consumes 1])
  case (1 f h cur k y)
  then show ?case
    by (subst searchIterative_loop.simps) (auto split: option.splits if_splits)
qed

lemma search_variants_eq: "searchIterative h rt k = searchRecursive h rt k"
  unfolding searchIterative_def
  by (cases "searchIterative_loop h rt k"; cases "searchRecursive h rt k") (auto dest: search_loop_eq1 search_loop_eq2)

section \<open>Insertion\<close>

lemma ptr_ins: "t \<noteq> Leaf \<Longrightarrow> ptr (ins x t) = ptr t"
  by (cases t) auto

lemma ptr_None [simp]: "(ptr t = None) = (t = Leaf)"
  by (cases t) auto

lemma ptr_SomeD: "ptr t = Some a \<Longrightarrow> \<exists>l k v r. t = Node l (a, k, v) r"
  by (cases t) auto

lemma addrs_ins: "set (addrs (ins (a, k, v) t)) = insert a (set (addrs t))"
  by (induction t) (auto split: if_splits)

lemma distinct_ins: "distinct (addrs t) \<Longrightarrow> a \<notin> set (addrs t) \<Longrightarrow> distinct (addrs (ins (a, k, v) t))"
  by (induction t) (auto simp: addrs_ins)

lemma insertRecursive_rep:
  assumes "rep h par t" "ptr t = Some b" "distinct (addrs t)" "a \<notin> set (addrs t)"
    "cell h a = Some \<lparr>nkey = k, nvalue = v, nleft = None, nright = None, nparent = q\<rparr>"
  shows "\<exists>h'. insertRecursive h b a = Some h' \<and> rep h' par (ins (a, k, v) t)
           \<and> length h' = length h \<and> (\<forall>x. x \<notin> set (addrs t) \<longrightarrow> x \<noteq> a \<longrightarrow> cell h' x = cell h x)"
  using assms
proof (induction t arbitrary: par b)
  case Leaf
  then show ?case by simp
next
  case (Node l bkv r)
  obtain k' v' where bkv: "bkv = (b, k', v')" using Node.prems(2) by (cases bkv) auto
  let ?pn = "\<lparr>nkey = k', nvalue = v', nleft = ptr l, nright = ptr r, nparent = par\<rparr>"
  let ?n = "\<lparr>nkey = k, nvalue = v, nleft = None, nright = None, nparent = q\<rparr>"
  from Node.prems have cb: "cell h b = Some ?pn" and rl: "rep h (Some b) l" and rr: "rep h (Some b) r"
    and ab: "a \<noteq> b" and al: "a \<notin> set (addrs l)" and ar: "a \<notin> set (addrs r)"
    and bl: "b \<notin> set (addrs l)" and br: "b \<notin> set (addrs r)"
    and dl: "distinct (addrs l)" and dr: "distinct (addrs r)"
    and lr: "set (addrs l) \<inter> set (addrs r) = {}"
    by (auto simp: bkv)
  note ca = Node.prems(5)
  have lb: "b < length h" and la: "a < length h" using cb ca by (auto dest: cell_less)
  show ?case
  proof (cases "k < k'")
    case True
    show ?thesis
    proof (cases l)
      case Leaf
      let ?h' = "h[b := Some (?pn\<lparr>nleft := Some a\<rparr>), a := Some (?n\<lparr>nparent := Some b\<rparr>)]"
      have "insertRecursive h b a = Some ?h'"
        by (subst insertRecursive.simps)
           (simp add: ca cb True Leaf update_node_def cell_update ab lb)
      moreover have "rep ?h' (Some b) r"
        using rr by (rule rep_frame) (use ar br in \<open>auto simp: cell_update\<close>)
      ultimately show ?thesis
        using True Leaf ab lb la by (auto simp: bkv cell_update)
    next
      case (Node ll x lrr)
      then obtain lb' where pl: "ptr l = Some lb'" by (cases x) auto
      from Node.IH(1)[OF rl pl dl al ca] obtain h' where
        h': "insertRecursive h lb' a = Some h'" "rep h' (Some b) (ins (a, k, v) l)"
          "length h' = length h" "\<forall>x. x \<notin> set (addrs l) \<longrightarrow> x \<noteq> a \<longrightarrow> cell h' x = cell h x"
        by blast
      have "insertRecursive h b a = Some h'"
        by (subst insertRecursive.simps) (simp add: ca cb True pl h')
      moreover have "rep h' (Some b) r"
        using rr by (rule rep_frame) (use ar lr h'(4) in auto)
      moreover have "cell h' b = Some ?pn" using h'(4) bl ab cb by auto
      moreover have "ptr (ins (a, k, v) l) = ptr l" using Node by (simp add: ptr_ins)
      ultimately show ?thesis
        using True h' by (auto simp: bkv)
    qed
  next
    case False
    show ?thesis
    proof (cases r)
      case Leaf
      let ?h' = "h[b := Some (?pn\<lparr>nright := Some a\<rparr>), a := Some (?n\<lparr>nparent := Some b\<rparr>)]"
      have "insertRecursive h b a = Some ?h'"
        by (subst insertRecursive.simps)
           (simp add: ca cb False Leaf update_node_def cell_update ab lb)
      moreover have "rep ?h' (Some b) l"
        using rl by (rule rep_frame) (use al bl in \<open>auto simp: cell_update\<close>)
      ultimately show ?thesis
        using False Leaf ab lb la by (auto simp: bkv cell_update)
    next
      case (Node rl' x rr')
      then obtain rb' where pr: "ptr r = Some rb'" by (cases x) auto
      from Node.IH(2)[OF rr pr dr ar ca] obtain h' where
        h': "insertRecursive h rb' a = Some h'" "rep h' (Some b) (ins (a, k, v) r)"
          "length h' = length h" "\<forall>x. x \<notin> set (addrs r) \<longrightarrow> x \<noteq> a \<longrightarrow> cell h' x = cell h x"
        by blast
      have "insertRecursive h b a = Some h'"
        by (subst insertRecursive.simps) (simp add: ca cb False pr h')
      moreover have "rep h' (Some b) l"
        using rl by (rule rep_frame) (use al lr h'(4) in auto)
      moreover have "cell h' b = Some ?pn" using h'(4) br ab cb by auto
      moreover have "ptr (ins (a, k, v) r) = ptr r" using Node by (simp add: ptr_ins)
      ultimately show ?thesis
        using False h' by (auto simp: bkv)
    qed
  qed
qed

text \<open>Where the recursion of \<^verbatim>\<open>insertRecursive\<close> returns, the loop of
  \<^verbatim>\<open>insertIterative\<close> returns the same heap.\<close>

lemma insert_loop_eq:
  "insertRecursive h b a = Some y \<Longrightarrow> insertIterative_loop h a (Some b) = Some y"
proof (induction rule: insertRecursive.raw_induct[rotated 1, consumes 1])
  case (1 f h parent nodeToInsert y)
  have stop: "\<And>h'. insertIterative_loop h' nodeToInsert None = Some h'"
    by (subst insertIterative_loop.simps) simp
  from 1 show ?case
    by (subst insertIterative_loop.simps)
       (auto split: option.splits if_splits bind_splits simp: stop)
qed

lemma update_node_id:
  "cell h a = Some n \<Longrightarrow> f n = n \<Longrightarrow> update_node h a f = Some h"
  by (simp add: update_node_def cell_def list_update_same_conv split: if_splits)

lemma cell_new_Node:
  "cell (fst (new_Node h k v)) x =
     (if x = length h then Some \<lparr>nkey = k, nvalue = v, nleft = None, nright = None, nparent = None\<rparr>
      else cell h x)"
  by (auto simp: new_Node_def cell_def nth_append)

lemma rep_less: "rep h par t \<Longrightarrow> a \<in> set (addrs t) \<Longrightarrow> a < length h"
  using rep_allocated cell_less by blast

lemma insert_bst_rep:
  assumes "is_tree h rt t"
  shows "\<exists>h'. insert_bst iter h rt k v = Some (h', ptr (ins (length h, k, v) t))
           \<and> is_tree h' (ptr (ins (length h, k, v) t)) (ins (length h, k, v) t)
           \<and> length h' = Suc (length h)
           \<and> (\<forall>x. x \<notin> set (addrs t) \<longrightarrow> x < length h \<longrightarrow> cell h' x = cell h x)"
proof -
  let ?a = "length h"
  let ?n = "\<lparr>nkey = k, nvalue = v, nleft = None, nright = None, nparent = None\<rparr>"
  obtain h0 where h0: "new_Node h k v = (h0, ?a)" "h0 = h @ [Some ?n]"
    by (simp add: new_Node_def)
  from assms have rt: "rt = ptr t" and rp: "rep h None t" and d: "distinct (addrs t)"
    by (simp_all add: is_tree_def)
  have fresh: "?a \<notin> set (addrs t)" using rep_less[OF rp] by auto
  have c0: "\<And>x. cell h0 x = (if x = ?a then Some ?n else cell h x)"
    using cell_new_Node[of h k v] by (simp add: h0)
  have ca: "cell h0 ?a = Some ?n" by (simp add: c0)
  have rp0: "rep h0 None t" using rp by (rule rep_frame) (use fresh in \<open>auto simp: c0\<close>)
  have l0: "length h0 = Suc ?a" by (simp add: h0)
  show ?thesis
  proof (cases t)
    case Leaf
    have "update_node h0 ?a (\<lambda>x. x\<lparr>nleft := None\<rparr>) = Some h0"
      "update_node h0 ?a (\<lambda>x. x\<lparr>nright := None\<rparr>) = Some h0"
      "update_node h0 ?a (\<lambda>x. x\<lparr>nparent := None\<rparr>) = Some h0"
      by (rule update_node_id[OF ca], simp)+
    then have "insert_bst iter h rt k v = Some (h0, Some ?a)"
      by (simp add: insert_bst_def h0(1) rt Leaf insertIterative_def)
    then show ?thesis
      using Leaf ca l0 by (simp add: is_tree_def c0)
  next
    case (Node l bkv r)
    then obtain b where pt: "ptr t = Some b" by (cases bkv) auto
    from insertRecursive_rep[OF rp0 pt d fresh ca] obtain h' where
      h': "insertRecursive h0 b ?a = Some h'" "rep h' None (ins (?a, k, v) t)"
        "length h' = length h0" "\<forall>x. x \<notin> set (addrs t) \<longrightarrow> x \<noteq> ?a \<longrightarrow> cell h' x = cell h0 x"
      by blast
    have "update_node h0 ?a (\<lambda>x. x\<lparr>nleft := None\<rparr>) = Some h0"
      "update_node h0 ?a (\<lambda>x. x\<lparr>nright := None\<rparr>) = Some h0"
      by (rule update_node_id[OF ca], simp)+
    then have "insert_bst iter h rt k v = Some (h', rt)"
      by (simp add: insert_bst_def h0(1) rt pt insertIterative_def h'(1) insert_loop_eq[OF h'(1)])
    moreover have "ptr (ins (?a, k, v) t) = rt" using Node rt by (simp add: ptr_ins)
    ultimately show ?thesis
      using h' l0 d fresh by (auto simp: is_tree_def distinct_ins c0)
  qed
qed

section \<open>Removal\<close>

lemma del_node_notin: "a \<notin> set (addrs t) \<Longrightarrow> del_node a t = t"
  by (induction t) auto

lemma leftmost_Some: "t \<noteq> Leaf \<Longrightarrow> \<exists>x. leftmost t = Some x"
  by (cases t) (auto split: option.splits)

lemma leftmost_None: "(leftmost t = None) = (t = Leaf)"
  by (cases t) (auto split: option.splits)

lemma leftmost_in: "leftmost t = Some x \<Longrightarrow> x \<in> set (inorder t)"
  by (induction t) (auto split: option.splits)

lemma leftmost_addr: "leftmost t = Some (s, ks, vs) \<Longrightarrow> s \<in> set (addrs t)"
  by (induction t) (auto split: option.splits)

lemma leftmost_cell:
  "rep h par t \<Longrightarrow> leftmost t = Some (s, ks, vs) \<Longrightarrow>
     \<exists>sr p. cell h s = Some \<lparr>nkey = ks, nvalue = vs, nleft = None, nright = sr, nparent = p\<rparr>"
  by (induction t arbitrary: par) (auto split: option.splits simp: leftmost_None)

lemma succ_loop_rep:
  "rep h par t \<Longrightarrow> ptr t = Some b \<Longrightarrow> succ_loop h b = map_option fst (leftmost t)"
proof (induction t arbitrary: par b)
  case Leaf
  then show ?case by simp
next
  case (Node l bkv r)
  obtain k v where bkv: "bkv = (b, k, v)" using Node.prems(2) by (cases bkv) auto
  from Node.prems have cb: "cell h b = Some \<lparr>nkey = k, nvalue = v, nleft = ptr l, nright = ptr r, nparent = par\<rparr>"
    and rl: "rep h (Some b) l" by (auto simp: bkv)
  show ?case
  proof (cases l)
    case Leaf
    then show ?thesis by (subst succ_loop.simps) (simp add: cb bkv)
  next
    case (Node ll x lr)
    then obtain c where pl: "ptr l = Some c" by (cases x) auto
    from Node have "leftmost l \<noteq> None" using leftmost_None[of l] by blast
    then show ?thesis
      using Node.IH(1)[OF rl pl]
      by (subst succ_loop.simps) (auto simp add: cb bkv pl)
  qed
qed

lemma rep_reparent:
  assumes "rep h par t" "distinct (addrs t)" "ptr t = Some c" "cell h c = Some n"
  shows "rep (h[c := Some (n\<lparr>nparent := par'\<rparr>)]) par' t"
proof -
  from assms(3) obtain l k v r where t: "t = Node l (c, k, v) r"
    by (auto dest: ptr_SomeD)
  let ?h = "h[c := Some (n\<lparr>nparent := par'\<rparr>)]"
  from assms(1) have n: "cell h c = Some \<lparr>nkey = k, nvalue = v, nleft = ptr l, nright = ptr r, nparent = par\<rparr>"
    and rl: "rep h (Some c) l" and rr: "rep h (Some c) r"
    by (simp_all add: t)
  from assms(2) have cl: "c \<notin> set (addrs l)" and cr: "c \<notin> set (addrs r)"
    by (simp_all add: t)
  have "rep ?h (Some c) l"
    using rl by (rule rep_frame) (use cl in \<open>auto simp: cell_update\<close>)
  moreover have "rep ?h (Some c) r"
    using rr by (rule rep_frame) (use cr in \<open>auto simp: cell_update\<close>)
  moreover have "cell ?h c = Some \<lparr>nkey = k, nvalue = v, nleft = ptr l, nright = ptr r, nparent = par'\<rparr>"
    using n assms(4) cell_less[OF assms(4)] by (simp add: cell_update)
  ultimately show ?thesis by (simp add: t)
qed

lemma replaceChild_rep:
  assumes "cell h p = Some pn" "nleft pn = Some a \<or> nright pn = Some a"
    "rep h (Some a) ch" "distinct (addrs ch)" "p \<notin> set (addrs ch)"
  shows "\<exists>h1. replaceChild h (Some p) (Some a) (ptr ch) = Some (h1, True)
           \<and> length h1 = length h
           \<and> cell h1 p = Some (if nleft pn = Some a then pn\<lparr>nleft := ptr ch\<rparr> else pn\<lparr>nright := ptr ch\<rparr>)
           \<and> rep h1 (Some p) ch
           \<and> (\<forall>x. x \<noteq> p \<longrightarrow> x \<notin> set (addrs ch) \<longrightarrow> cell h1 x = cell h x)"
proof -
  let ?pn' = "if nleft pn = Some a then pn\<lparr>nleft := ptr ch\<rparr> else pn\<lparr>nright := ptr ch\<rparr>"
  let ?h0 = "h[p := Some ?pn']"
  have lp: "p < length h" using assms(1) by (rule cell_less)
  have r0: "rep ?h0 (Some a) ch"
    using assms(3) by (rule rep_frame) (use assms(5) in \<open>auto simp: cell_update\<close>)
  show ?thesis
  proof (cases ch)
    case Leaf
    have "replaceChild h (Some p) (Some a) (ptr ch) = Some (?h0, True)"
      using assms(1,2) by (auto simp: replaceChild_def update_node_def Leaf)
    then show ?thesis using lp Leaf by (auto simp: cell_update)
  next
    case (Node l ckv r)
    then obtain c where pc: "ptr ch = Some c" by (cases ckv) auto
    then have cin: "c \<in> set (addrs ch)" using Node by (cases ckv) auto
    then obtain cn where cn: "cell h c = Some cn" using rep_allocated[OF assms(3)] by blast
    have cp: "c \<noteq> p" using cin assms(5) by auto
    have cn0: "cell ?h0 c = Some cn" using cn cp by (simp add: cell_update)
    let ?h1 = "?h0[c := Some (cn\<lparr>nparent := Some p\<rparr>)]"
    have "replaceChild h (Some p) (Some a) (ptr ch) = Some (?h1, True)"
      using assms(1,2) cn0 by (auto simp: replaceChild_def update_node_def pc)
    moreover have "rep ?h1 (Some p) ch"
      by (rule rep_reparent[OF r0 assms(4) pc cn0])
    ultimately show ?thesis using lp cp cin by (auto simp: cell_update)
  qed
qed

lemma ptr_in_addrs: "ptr t = Some a \<Longrightarrow> a \<in> set (addrs t)"
  by (auto dest: ptr_SomeD)

lemma addrs_del_node: "set (addrs (del_node a t)) \<subseteq> set (addrs t)"
proof (induction t arbitrary: a)
  case Leaf
  show ?case by simp
next
  case (Node l bkv r)
  obtain b k v where bkv: "bkv = (b, k, v)" by (cases bkv)
  show ?case
    using Node.IH(1)[of a] Node.IH(2)
    by (auto simp: bkv split: option.splits)
qed

lemma remove_node_one_child:
  assumes ca: "cell h a = Some \<lparr>nkey = ka, nvalue = va, nleft = ptr ll, nright = ptr lr, nparent = Some p\<rparr>"
    and one: "ll = Leaf \<or> lr = Leaf"
    and rt: "rt \<noteq> Some a"
    and cp: "cell h p = Some pn" and slot: "nleft pn = Some a \<or> nright pn = Some a"
    and ap: "a \<noteq> p"
    and ch: "ch = (if ll \<noteq> Leaf then ll else lr)"
    and rch: "rep h (Some a) ch" and dch: "distinct (addrs ch)"
    and pch: "p \<notin> set (addrs ch)" and ach: "a \<notin> set (addrs ch)"
  shows "\<exists>h'. remove_node h rt (Some a) = Some (h', rt) \<and> length h' = length h \<and> cell h' a = None
     \<and> cell h' p = Some (if nleft pn = Some a then pn\<lparr>nleft := ptr ch\<rparr> else pn\<lparr>nright := ptr ch\<rparr>)
     \<and> rep h' (Some p) ch
     \<and> (\<forall>x. x \<noteq> a \<longrightarrow> x \<noteq> p \<longrightarrow> x \<notin> set (addrs ch) \<longrightarrow> cell h' x = cell h x)"
proof -
  from replaceChild_rep[OF cp slot rch dch pch] obtain h1 where
    h1: "replaceChild h (Some p) (Some a) (ptr ch) = Some (h1, True)" "length h1 = length h"
      "cell h1 p = Some (if nleft pn = Some a then pn\<lparr>nleft := ptr ch\<rparr> else pn\<lparr>nright := ptr ch\<rparr>)"
      "rep h1 (Some p) ch" "\<forall>x. x \<noteq> p \<longrightarrow> x \<notin> set (addrs ch) \<longrightarrow> cell h1 x = cell h x"
    by blast
  have ca1: "cell h1 a = cell h a" using h1(5) ap ach by simp
  have del: "delete_Node h1 a = Some (h1[a := None])"
    by (simp add: delete_Node_def ca1 ca)
  have la: "a < length h1" using ca h1(2) by (auto dest: cell_less)
  have rm: "remove_node h rt (Some a) = Some (h1[a := None], rt)"
  proof (cases "ll = Leaf")
    case True
    then have "ch = lr" using ch by simp
    then show ?thesis
      using True rt h1(1) del
      by (subst remove_node.simps) (simp add: ca)
  next
    case False
    then have "ch = ll" "lr = Leaf" using ch one by simp_all
    then show ?thesis
      using False rt h1(1) del
      by (subst remove_node.simps) (simp add: ca)
  qed
  have "rep (h1[a := None]) (Some p) ch"
    using h1(4) by (rule rep_frame) (use ach in \<open>auto simp: cell_update\<close>)
  then show ?thesis
    using rm h1 la ap by (auto simp: cell_update)
qed

lemma remove_node_inner:
  assumes "rep h par t" "distinct (addrs t)" "a \<in> set (addrs t)" "ptr t \<noteq> Some a" "rt \<noteq> Some a"
     "cell h a = Some n" "nleft n = None \<or> nright n = None"
  shows "\<exists>h'. remove_node h rt (Some a) = Some (h', rt) \<and> rep h' par (del_node a t)
     \<and> ptr (del_node a t) = ptr t \<and> length h' = length h
     \<and> (\<forall>x. x \<notin> set (addrs t) \<longrightarrow> cell h' x = cell h x) \<and> cell h' a = None"
  using assms(1-4)
proof (induction t arbitrary: par)
  case Leaf
  then show ?case by simp
next
  case (Node l bkv r)
  obtain b k v where bkv: "bkv = (b, k, v)" by (cases bkv)
  let ?pn = "\<lparr>nkey = k, nvalue = v, nleft = ptr l, nright = ptr r, nparent = par\<rparr>"
  from Node.prems have cb: "cell h b = Some ?pn" and rl: "rep h (Some b) l" and rr: "rep h (Some b) r"
    and ab: "a \<noteq> b" and bl: "b \<notin> set (addrs l)" and br: "b \<notin> set (addrs r)"
    and dl: "distinct (addrs l)" and dr: "distinct (addrs r)"
    and lr: "set (addrs l) \<inter> set (addrs r) = {}"
    and alr: "a \<in> set (addrs l) \<or> a \<in> set (addrs r)"
    by (auto simp: bkv)
  from alr show ?case
  proof
    assume al: "a \<in> set (addrs l)"
    then have ar: "a \<notin> set (addrs r)" using lr by auto
    show ?thesis
    proof (cases "ptr l = Some a")
      case True
      then obtain ll ka va lrr where l: "l = Node ll (a, ka, va) lrr" by (auto dest: ptr_SomeD)
      from rl assms(6) have n: "n = \<lparr>nkey = ka, nvalue = va, nleft = ptr ll, nright = ptr lrr, nparent = Some b\<rparr>"
        and rll: "rep h (Some a) ll" and rlr: "rep h (Some a) lrr"
        by (simp_all add: l)
      define ch where "ch = (if ll \<noteq> Leaf then ll else lrr)"
      have one: "ll = Leaf \<or> lrr = Leaf" using assms(7) by (simp add: n)
      have sub: "set (addrs ch) \<subseteq> set (addrs l)" by (auto simp: ch_def l)
      have rch: "rep h (Some a) ch" using rll rlr by (simp add: ch_def)
      have dch: "distinct (addrs ch)" using dl by (simp add: ch_def l)
      have ach: "a \<notin> set (addrs ch)" using dl by (auto simp: ch_def l)
      have bch: "b \<notin> set (addrs ch)" using bl sub by auto
      have slot: "nleft ?pn = Some a \<or> nright ?pn = Some a" using True by simp
      from remove_node_one_child[OF assms(6)[unfolded n] one assms(5) cb slot ab ch_def rch dch bch ach]
      obtain h' where h': "remove_node h rt (Some a) = Some (h', rt)" "length h' = length h"
        "cell h' a = None" "cell h' b = Some (?pn\<lparr>nleft := ptr ch\<rparr>)" "rep h' (Some b) ch"
        "\<forall>x. x \<noteq> a \<longrightarrow> x \<noteq> b \<longrightarrow> x \<notin> set (addrs ch) \<longrightarrow> cell h' x = cell h x"
        using True by auto
      have dn: "del_node a (Node l (b, k, v) r) = Node ch (b, k, v) r"
        using ab ar one by (auto simp: bkv l ch_def del_node_notin)
      have "rep h' (Some b) r"
        using rr by (rule rep_frame) (use h'(6) ar br lr sub in auto)
      then have "rep h' par (Node ch (b, k, v) r)"
        using h'(4,5) by simp
      moreover have "\<forall>x. x \<notin> set (addrs (Node l bkv r)) \<longrightarrow> cell h' x = cell h x"
        using h'(6) sub by (auto simp: bkv l)
      ultimately show ?thesis
        using h'(1,2,3) by (simp add: bkv dn del: del_node.simps)
    next
      case False
      from Node.IH(1)[OF rl dl al False] obtain h' where
        h': "remove_node h rt (Some a) = Some (h', rt)" "rep h' (Some b) (del_node a l)"
          "ptr (del_node a l) = ptr l" "length h' = length h"
          "\<forall>x. x \<notin> set (addrs l) \<longrightarrow> cell h' x = cell h x" "cell h' a = None"
        by blast
      have dn: "del_node a (Node l (b, k, v) r) = Node (del_node a l) (b, k, v) r"
        using ab ar by (simp add: bkv del_node_notin)
      have "rep h' (Some b) r"
        using rr by (rule rep_frame) (use h'(5) lr in auto)
      moreover have "cell h' b = Some ?pn" using h'(5) bl cb by simp
      ultimately have "rep h' par (Node (del_node a l) (b, k, v) r)"
        using h'(2,3) by simp
      then show ?thesis
        using h' by (simp add: bkv dn del: del_node.simps)
    qed
  next
    assume ar: "a \<in> set (addrs r)"
    then have al: "a \<notin> set (addrs l)" using lr by auto
    then have nl: "ptr l \<noteq> Some a" using ptr_in_addrs by blast
    show ?thesis
    proof (cases "ptr r = Some a")
      case True
      then obtain ll ka va lrr where r: "r = Node ll (a, ka, va) lrr" by (auto dest: ptr_SomeD)
      from rr assms(6) have n: "n = \<lparr>nkey = ka, nvalue = va, nleft = ptr ll, nright = ptr lrr, nparent = Some b\<rparr>"
        and rll: "rep h (Some a) ll" and rlr: "rep h (Some a) lrr"
        by (simp_all add: r)
      define ch where "ch = (if ll \<noteq> Leaf then ll else lrr)"
      have one: "ll = Leaf \<or> lrr = Leaf" using assms(7) by (simp add: n)
      have sub: "set (addrs ch) \<subseteq> set (addrs r)" by (auto simp: ch_def r)
      have rch: "rep h (Some a) ch" using rll rlr by (simp add: ch_def)
      have dch: "distinct (addrs ch)" using dr by (simp add: ch_def r)
      have ach: "a \<notin> set (addrs ch)" using dr by (auto simp: ch_def r)
      have bch: "b \<notin> set (addrs ch)" using br sub by auto
      have slot: "nleft ?pn = Some a \<or> nright ?pn = Some a" using True by simp
      from remove_node_one_child[OF assms(6)[unfolded n] one assms(5) cb slot ab ch_def rch dch bch ach]
      obtain h' where h': "remove_node h rt (Some a) = Some (h', rt)" "length h' = length h"
        "cell h' a = None" "cell h' b = Some (?pn\<lparr>nright := ptr ch\<rparr>)" "rep h' (Some b) ch"
        "\<forall>x. x \<noteq> a \<longrightarrow> x \<noteq> b \<longrightarrow> x \<notin> set (addrs ch) \<longrightarrow> cell h' x = cell h x"
        using nl by auto
      have dn: "del_node a (Node l (b, k, v) r) = Node l (b, k, v) ch"
        using ab al one by (auto simp: bkv r ch_def del_node_notin)
      have "rep h' (Some b) l"
        using rl by (rule rep_frame) (use h'(6) al bl lr sub in auto)
      then have "rep h' par (Node l (b, k, v) ch)"
        using h'(4,5) by simp
      moreover have "\<forall>x. x \<notin> set (addrs (Node l bkv r)) \<longrightarrow> cell h' x = cell h x"
        using h'(6) sub by (auto simp: bkv r)
      ultimately show ?thesis
        using h'(1,2,3) by (simp add: bkv dn del: del_node.simps)
    next
      case False
      from Node.IH(2)[OF rr dr ar False] obtain h' where
        h': "remove_node h rt (Some a) = Some (h', rt)" "rep h' (Some b) (del_node a r)"
          "ptr (del_node a r) = ptr r" "length h' = length h"
          "\<forall>x. x \<notin> set (addrs r) \<longrightarrow> cell h' x = cell h x" "cell h' a = None"
        by blast
      have dn: "del_node a (Node l (b, k, v) r) = Node l (b, k, v) (del_node a r)"
        using ab al by (simp add: bkv del_node_notin)
      have "rep h' (Some b) l"
        using rl by (rule rep_frame) (use h'(5) lr in auto)
      moreover have "cell h' b = Some ?pn" using h'(5) br cb by simp
      ultimately have "rep h' par (Node l (b, k, v) (del_node a r))"
        using h'(2,3) by simp
      then show ?thesis
        using h' by (simp add: bkv dn del: del_node.simps)
    qed
  qed
qed

lemma distinct_del_node: "distinct (addrs t) \<Longrightarrow> distinct (addrs (del_node a t))"
proof (induction t arbitrary: a)
  case Leaf
  show ?case by simp
next
  case (Node l bkv r)
  obtain b k v where bkv: "bkv = (b, k, v)" by (cases bkv)
  from Node.prems have d: "distinct (addrs l)" "distinct (addrs r)" "b \<notin> set (addrs l)"
    "b \<notin> set (addrs r)" "set (addrs l) \<inter> set (addrs r) = {}"
    by (auto simp: bkv)
  have sl: "\<And>x. set (addrs (del_node x l)) \<subseteq> set (addrs l)"
    and sr: "\<And>x. set (addrs (del_node x r)) \<subseteq> set (addrs r)"
    by (rule addrs_del_node)+
  have gen: "distinct (addrs (del_node x l) @ b # addrs (del_node y r))" for x y
    using Node.IH(1)[OF d(1), of x] Node.IH(2)[OF d(2), of y] d(3,4,5) sl[of x] sr[of y]
    by (simp; blast)
  show ?case
  proof (cases "a = b")
    case False
    then show ?thesis using gen[of a a] by (simp add: bkv)
  next
    case True
    show ?thesis
    proof (cases "l \<noteq> Leaf \<and> r \<noteq> Leaf")
      case False
      then show ?thesis using True d by (auto simp: bkv)
    next
      case two: True
      then obtain s ks vs where lm: "leftmost r = Some (s, ks, vs)"
        using leftmost_Some[of r] by (metis prod_cases3)
      have "distinct (addrs l @ b # addrs (del_node s r))"
        using Node.IH(2)[OF d(2), of s] d sr[of s] by (simp; blast)
      then show ?thesis using True two lm by (simp add: bkv)
    qed
  qed
qed

lemma remove_node_two_children:
  assumes rp: "rep h par (Node l (a, k, v) r)" and d: "distinct (addrs (Node l (a, k, v) r))"
    and nl: "l \<noteq> Leaf" and nr: "r \<noteq> Leaf" and rt: "rt \<notin> Some ` set (addrs r)"
  shows "\<exists>h' s ks vs. remove_node h rt (Some a) = Some (h', rt)
     \<and> leftmost r = Some (s, ks, vs) \<and> cell h' s = None
     \<and> rep h' par (Node l (a, ks, vs) (del_node s r))
     \<and> length h' = length h
     \<and> (\<forall>x. x \<notin> set (addrs (Node l (a, k, v) r)) \<longrightarrow> cell h' x = cell h x)"
proof -
  let ?n = "\<lparr>nkey = k, nvalue = v, nleft = ptr l, nright = ptr r, nparent = par\<rparr>"
  from rp have ca: "cell h a = Some ?n" and rl: "rep h (Some a) l" and rr: "rep h (Some a) r"
    by simp_all
  from d have al: "a \<notin> set (addrs l)" and ar: "a \<notin> set (addrs r)"
    and lr: "set (addrs l) \<inter> set (addrs r) = {}" by auto
  from nr obtain rb where pr: "ptr r = Some rb" by (cases r) auto
  from nr obtain s ks vs where lm: "leftmost r = Some (s, ks, vs)"
    using leftmost_Some[OF nr] by (metis prod_cases3)
  have sr: "s \<in> set (addrs r)" using lm by (rule leftmost_addr)
  then have sa: "s \<noteq> a" and sl: "s \<notin> set (addrs l)" using ar lr by auto
  from leftmost_cell[OF rr lm] obtain sr' p where
    cs: "cell h s = Some \<lparr>nkey = ks, nvalue = vs, nleft = None, nright = sr', nparent = p\<rparr>"
    by blast
  have sl': "succ_loop h rb = Some s" using succ_loop_rep[OF rr pr] lm by simp
  let ?n2 = "\<lparr>nkey = ks, nvalue = vs, nleft = ptr l, nright = ptr r, nparent = par\<rparr>"
  let ?h2 = "h[a := Some ?n2]"
  have la: "a < length h" using ca by (rule cell_less)
  have step: "remove_node h rt (Some a) = remove_node ?h2 rt (Some s)"
    using nl
    by (subst remove_node.simps)
       (simp add: ca pr sl' cs update_node_def cell_update sa la)
  have cs2: "cell ?h2 s = Some \<lparr>nkey = ks, nvalue = vs, nleft = None, nright = sr', nparent = p\<rparr>"
    using cs sa by (simp add: cell_update)
  have rl2: "rep ?h2 (Some a) l"
    using rl by (rule rep_frame) (use al in \<open>auto simp: cell_update\<close>)
  have rr2: "rep ?h2 (Some a) r"
    using rr by (rule rep_frame) (use ar in \<open>auto simp: cell_update\<close>)
  have rp2: "rep ?h2 par (Node l (a, ks, vs) r)"
    using rl2 rr2 la by (simp add: cell_update)
  have d2: "distinct (addrs (Node l (a, ks, vs) r))" using d by simp
  have in2: "s \<in> set (addrs (Node l (a, ks, vs) r))" using sr by simp
  have pt2: "ptr (Node l (a, ks, vs) r) \<noteq> Some s" using sa by simp
  have rts: "rt \<noteq> Some s" using rt sr by auto
  from remove_node_inner[OF rp2 d2 in2 pt2 rts cs2] obtain h' where
    h': "remove_node ?h2 rt (Some s) = Some (h', rt)"
      "rep h' par (del_node s (Node l (a, ks, vs) r))" "length h' = length ?h2"
      "\<forall>x. x \<notin> set (addrs (Node l (a, ks, vs) r)) \<longrightarrow> cell h' x = cell ?h2 x" "cell h' s = None"
    by auto
  have "del_node s (Node l (a, ks, vs) r) = Node l (a, ks, vs) (del_node s r)"
    using sa sl by (simp add: del_node_notin)
  with h' step lm show ?thesis
    by (auto simp: cell_update)
qed

lemma remove_node_located:
  assumes "rep h par t" "distinct (addrs t)" "a \<in> set (addrs t)" "ptr t \<noteq> Some a"
    "\<forall>x \<in> set (addrs t). rt = Some x \<longrightarrow> ptr t = Some x"
  shows "\<exists>h'. remove_node h rt (Some a) = Some (h', rt) \<and> rep h' par (del_node a t)
     \<and> ptr (del_node a t) = ptr t \<and> length h' = length h
     \<and> (\<forall>x. x \<notin> set (addrs t) \<longrightarrow> cell h' x = cell h x)"
  using assms
proof (induction t arbitrary: par)
  case Leaf
  then show ?case by simp
next
  case (Node l bkv r)
  obtain b k v where bkv: "bkv = (b, k, v)" by (cases bkv)
  let ?pn = "\<lparr>nkey = k, nvalue = v, nleft = ptr l, nright = ptr r, nparent = par\<rparr>"
  from Node.prems have cb: "cell h b = Some ?pn" and rl: "rep h (Some b) l" and rr: "rep h (Some b) r"
    and ab: "a \<noteq> b" and bl: "b \<notin> set (addrs l)" and br: "b \<notin> set (addrs r)"
    and dl: "distinct (addrs l)" and dr: "distinct (addrs r)"
    and lr: "set (addrs l) \<inter> set (addrs r) = {}"
    and alr: "a \<in> set (addrs l) \<or> a \<in> set (addrs r)"
    by (auto simp: bkv)
  from Node.prems(5) bl br have rtl: "rt \<notin> Some ` set (addrs l)" and rtr: "rt \<notin> Some ` set (addrs r)"
    by (auto simp: bkv)
  have rta: "rt \<noteq> Some a" using rtl rtr alr by auto
  obtain n where n: "cell h a = Some n"
    using rep_allocated[OF Node.prems(1) Node.prems(3)] by blast
  show ?case
  proof (cases "nleft n = None \<or> nright n = None")
    case True
    from remove_node_inner[OF Node.prems(1-4) rta n True] show ?thesis by blast
  next
    case two: False
    from alr show ?thesis
    proof
      assume al: "a \<in> set (addrs l)"
      then have ar: "a \<notin> set (addrs r)" using lr by auto
      have "\<exists>h'. remove_node h rt (Some a) = Some (h', rt) \<and> rep h' (Some b) (del_node a l)
         \<and> ptr (del_node a l) = ptr l \<and> length h' = length h
         \<and> (\<forall>x. x \<notin> set (addrs l) \<longrightarrow> cell h' x = cell h x)"
      proof (cases "ptr l = Some a")
        case True
        then obtain ll ka va lrr where l: "l = Node ll (a, ka, va) lrr" by (auto dest: ptr_SomeD)
        from rl n two have nll: "ll \<noteq> Leaf" and nlr: "lrr \<noteq> Leaf" by (auto simp: l)
        have rtlr: "rt \<notin> Some ` set (addrs lrr)" using rtl by (auto simp: l)
        from remove_node_two_children[OF rl[unfolded l] dl[unfolded l] nll nlr rtlr]
        show ?thesis using nll nlr by (auto simp: l)
      next
        case False
        have "\<forall>x \<in> set (addrs l). rt = Some x \<longrightarrow> ptr l = Some x" using rtl by auto
        from Node.IH(1)[OF rl dl al False this] show ?thesis .
      qed
      then obtain h' where
        h': "remove_node h rt (Some a) = Some (h', rt)" "rep h' (Some b) (del_node a l)"
          "ptr (del_node a l) = ptr l" "length h' = length h"
          "\<forall>x. x \<notin> set (addrs l) \<longrightarrow> cell h' x = cell h x"
        by blast
      have dn: "del_node a (Node l (b, k, v) r) = Node (del_node a l) (b, k, v) r"
        using ab ar by (simp add: del_node_notin)
      have "rep h' (Some b) r"
        using rr by (rule rep_frame) (use h'(5) lr in auto)
      moreover have "cell h' b = Some ?pn" using h'(5) bl cb by simp
      ultimately have "rep h' par (Node (del_node a l) (b, k, v) r)"
        using h'(2,3) by simp
      then show ?thesis
        using h' by (simp add: bkv dn del: del_node.simps)
    next
      assume ar: "a \<in> set (addrs r)"
      then have al: "a \<notin> set (addrs l)" using lr by auto
      have "\<exists>h'. remove_node h rt (Some a) = Some (h', rt) \<and> rep h' (Some b) (del_node a r)
         \<and> ptr (del_node a r) = ptr r \<and> length h' = length h
         \<and> (\<forall>x. x \<notin> set (addrs r) \<longrightarrow> cell h' x = cell h x)"
      proof (cases "ptr r = Some a")
        case True
        then obtain ll ka va lrr where r: "r = Node ll (a, ka, va) lrr" by (auto dest: ptr_SomeD)
        from rr n two have nll: "ll \<noteq> Leaf" and nlr: "lrr \<noteq> Leaf" by (auto simp: r)
        have rtlr: "rt \<notin> Some ` set (addrs lrr)" using rtr by (auto simp: r)
        from remove_node_two_children[OF rr[unfolded r] dr[unfolded r] nll nlr rtlr]
        show ?thesis using nll nlr by (auto simp: r)
      next
        case False
        have "\<forall>x \<in> set (addrs r). rt = Some x \<longrightarrow> ptr r = Some x" using rtr by auto
        from Node.IH(2)[OF rr dr ar False this] show ?thesis .
      qed
      then obtain h' where
        h': "remove_node h rt (Some a) = Some (h', rt)" "rep h' (Some b) (del_node a r)"
          "ptr (del_node a r) = ptr r" "length h' = length h"
          "\<forall>x. x \<notin> set (addrs r) \<longrightarrow> cell h' x = cell h x"
        by blast
      have dn: "del_node a (Node l (b, k, v) r) = Node l (b, k, v) (del_node a r)"
        using ab al by (simp add: del_node_notin)
      have "rep h' (Some b) l"
        using rl by (rule rep_frame) (use h'(5) lr in auto)
      moreover have "cell h' b = Some ?pn" using h'(5) br cb by simp
      ultimately have "rep h' par (Node l (b, k, v) (del_node a r))"
        using h'(2,3) by simp
      then show ?thesis
        using h' by (simp add: bkv dn del: del_node.simps)
    qed
  qed
qed

text \<open>\<^verbatim>\<open>remove( Node* )\<close> on any node of a tree object.\<close>

lemma remove_node_rep:
  assumes "is_tree h rt t" "a \<in> set (addrs t)"
  shows "\<exists>h'. remove_node h rt (Some a) = Some (h', ptr (del_node a t))
     \<and> is_tree h' (ptr (del_node a t)) (del_node a t) \<and> length h' = length h
     \<and> (\<forall>x. x \<notin> set (addrs t) \<longrightarrow> cell h' x = cell h x)"
proof -
  from assms(1) have rt: "rt = ptr t" and rp: "rep h None t" and d: "distinct (addrs t)"
    by (simp_all add: is_tree_def)
  have dd: "distinct (addrs (del_node a t))" using d by (rule distinct_del_node)
  show ?thesis
  proof (cases "ptr t = Some a")
    case False
    have "\<forall>x \<in> set (addrs t). rt = Some x \<longrightarrow> ptr t = Some x" using rt by simp
    from remove_node_located[OF rp d assms(2) False this] show ?thesis
      using dd rt by (auto simp: is_tree_def)
  next
    case True
    then obtain l k v r where t: "t = Node l (a, k, v) r" by (auto dest: ptr_SomeD)
    let ?n = "\<lparr>nkey = k, nvalue = v, nleft = ptr l, nright = ptr r, nparent = None\<rparr>"
    from rp have ca: "cell h a = Some ?n" and rl: "rep h (Some a) l" and rr: "rep h (Some a) r"
      by (simp_all add: t)
    from d have al: "a \<notin> set (addrs l)" and ar: "a \<notin> set (addrs r)"
      and dl: "distinct (addrs l)" and dr: "distinct (addrs r)" by (auto simp: t)
    show ?thesis
    proof (cases "l \<noteq> Leaf \<and> r \<noteq> Leaf")
      case True
      have "rt \<notin> Some ` set (addrs r)" using rt ar by (auto simp: t)
      from remove_node_two_children[OF rp[unfolded t] d[unfolded t] _ _ this] True
      show ?thesis using dd rt by (auto simp: is_tree_def t simp del: del_node.simps)
         (auto simp: t)
    next
      case False
      define ch where "ch = (if l \<noteq> Leaf then l else r)"
      have dn: "del_node a t = ch" using False by (auto simp: t ch_def)
      have rch: "rep h (Some a) ch" and dch: "distinct (addrs ch)" and ach: "a \<notin> set (addrs ch)"
        using rl rr dl dr al ar by (auto simp: ch_def)
      have root1: "(if nleft ?n \<noteq> None then nleft ?n else nright ?n) = ptr ch"
        using False by (auto simp: ch_def)
      have "\<exists>h1. (case ptr ch of None \<Rightarrow> Some h
                  | Some r \<Rightarrow> update_node h r (\<lambda>x. x\<lparr>nparent := None\<rparr>)) = Some h1
               \<and> rep h1 None ch \<and> length h1 = length h
               \<and> (\<forall>x. x \<notin> set (addrs ch) \<longrightarrow> cell h1 x = cell h x)"
      proof (cases "ptr ch")
        case None
        then show ?thesis by simp
      next
        case (Some c)
        then have cin: "c \<in> set (addrs ch)" by (rule ptr_in_addrs)
        then obtain cn where cn: "cell h c = Some cn" using rep_allocated[OF rch] by blast
        show ?thesis
          using rep_reparent[OF rch dch Some cn, of None] cin
          by (auto simp: Some update_node_def cn cell_update)
      qed
      then obtain h1 where h1: "(case ptr ch of None \<Rightarrow> Some h
                  | Some r \<Rightarrow> update_node h r (\<lambda>x. x\<lparr>nparent := None\<rparr>)) = Some h1"
         "rep h1 None ch" "length h1 = length h" "\<forall>x. x \<notin> set (addrs ch) \<longrightarrow> cell h1 x = cell h x"
        by blast
      have ca1: "cell h1 a = Some ?n" using h1(4) ach ca by simp
      have rm: "remove_node h rt (Some a) = Some (h1[a := None], ptr ch)"
      proof (cases "l = Leaf")
        case True
        then have "ch = r" by (simp add: ch_def)
        with True h1(1) show ?thesis
          by (subst remove_node.simps) (simp add: ca rt t delete_Node_def ca1)
      next
        case nl: False
        then have "ch = l" "r = Leaf" using False by (simp_all add: ch_def)
        with nl h1(1) show ?thesis
          by (subst remove_node.simps) (simp add: ca rt t delete_Node_def ca1)
      qed
      have "rep (h1[a := None]) None ch"
        using h1(2) by (rule rep_frame) (use ach in \<open>auto simp: cell_update\<close>)
      moreover have "\<forall>x. x \<notin> set (addrs t) \<longrightarrow> cell (h1[a := None]) x = cell h x"
        using h1(4) by (auto simp: t cell_update ch_def)
      ultimately show ?thesis
        using rm dch h1(3) by (simp add: dn is_tree_def)
    qed
  qed
qed

section \<open>Copy and clear\<close>

lemma reparent_root:
  assumes "rep h par t" "distinct (addrs t)"
  shows "\<exists>h1. (case ptr t of None \<Rightarrow> Some h
               | Some c \<Rightarrow> update_node h c (\<lambda>x. x\<lparr>nparent := par'\<rparr>)) = Some h1
           \<and> rep h1 par' t \<and> length h1 = length h
           \<and> (\<forall>x. x \<notin> set (addrs t) \<longrightarrow> cell h1 x = cell h x)"
proof (cases "ptr t")
  case None
  then show ?thesis by simp
next
  case (Some c)
  then have cin: "c \<in> set (addrs t)" by (rule ptr_in_addrs)
  then obtain cn where cn: "cell h c = Some cn" using rep_allocated[OF assms(1)] by blast
  show ?thesis
    using rep_reparent[OF assms Some cn, of par'] cin
    by (auto simp: Some update_node_def cn cell_update)
qed

lemma makeCopy_rep:
  "rep h par t \<Longrightarrow>
     \<exists>h' t'. makeCopy h (ptr t) = Some (h', ptr t') \<and> rep h' None t'
       \<and> map_tree snd t' = map_tree snd t \<and> distinct (addrs t')
       \<and> set (addrs t') \<subseteq> {length h ..< length h'} \<and> length h \<le> length h'
       \<and> (\<forall>x < length h. cell h' x = cell h x)"
proof (induction t arbitrary: h par)
  case Leaf
  show ?case
    by (subst makeCopy.simps) (auto intro!: exI[of _ Leaf])
next
  case (Node l akv r)
  obtain a k v where akv: "akv = (a, k, v)" by (cases akv)
  let ?on = "\<lparr>nkey = k, nvalue = v, nleft = ptr l, nright = ptr r, nparent = par\<rparr>"
  from Node.prems have ca: "cell h a = Some ?on" and rl: "rep h (Some a) l" and rr: "rep h (Some a) r"
    by (simp_all add: akv)
  have la: "a < length h" using ca by (rule cell_less)
  define node where "node = length h"
  define h1 where "h1 = h @ [Some \<lparr>nkey = k, nvalue = v, nleft = None, nright = None, nparent = None\<rparr>]"
  have nn: "new_Node h k v = (h1, node)" by (simp add: new_Node_def h1_def node_def)
  have c1: "\<And>x. cell h1 x = (if x = node then Some \<lparr>nkey = k, nvalue = v, nleft = None, nright = None, nparent = None\<rparr> else cell h x)"
    using cell_new_Node[of h k v] by (simp add: nn node_def)
  have l1: "length h1 = Suc (length h)" by (simp add: h1_def)
  have an: "a \<noteq> node" using la by (simp add: node_def)
  have rl1: "rep h1 (Some a) l"
    using rl by (rule rep_frame) (use rep_less[OF rl] in \<open>auto simp: c1 node_def\<close>)
  from Node.IH(1)[OF rl1] obtain h2 l' where
    h2: "makeCopy h1 (ptr l) = Some (h2, ptr l')" "rep h2 None l'" "map_tree snd l' = map_tree snd l"
      "distinct (addrs l')" "set (addrs l') \<subseteq> {length h1 ..< length h2}" "length h1 \<le> length h2"
      "\<forall>x < length h1. cell h2 x = cell h1 x"
    by blast
  have c2n: "cell h2 node = Some \<lparr>nkey = k, nvalue = v, nleft = None, nright = None, nparent = None\<rparr>"
    using h2(7) l1 by (simp add: c1 node_def)
  define h3 where "h3 = h2[node := Some \<lparr>nkey = k, nvalue = v, nleft = ptr l', nright = None, nparent = None\<rparr>]"
  have u3: "update_node h2 node (\<lambda>x. x\<lparr>nleft := ptr l'\<rparr>) = Some h3"
    by (simp add: update_node_def c2n h3_def)
  have nl2: "node < length h2" using h2(6) l1 by (simp add: node_def)
  have c3: "\<And>x. cell h3 x = (if x = node then Some \<lparr>nkey = k, nvalue = v, nleft = ptr l', nright = None, nparent = None\<rparr> else cell h2 x)"
    using nl2 by (simp add: h3_def cell_update)
  have l3: "length h3 = length h2" by (simp add: h3_def)
  have old3: "\<And>x. x < length h \<Longrightarrow> cell h3 x = cell h x"
    using h2(7) l1 by (simp add: c3 c1 node_def)
  have ca3: "cell h3 a = Some ?on" using old3[OF la] ca by simp
  have rr3: "rep h3 (Some a) r"
    using rr by (rule rep_frame) (use rep_less[OF rr] old3 in auto)
  from Node.IH(2)[OF rr3] obtain h4 r' where
    h4: "makeCopy h3 (ptr r) = Some (h4, ptr r')" "rep h4 None r'" "map_tree snd r' = map_tree snd r"
      "distinct (addrs r')" "set (addrs r') \<subseteq> {length h3 ..< length h4}" "length h3 \<le> length h4"
      "\<forall>x < length h3. cell h4 x = cell h3 x"
    by blast
  have nl4: "node < length h4" using nl2 l3 h4(6) by simp
  have c4n: "cell h4 node = Some \<lparr>nkey = k, nvalue = v, nleft = ptr l', nright = None, nparent = None\<rparr>"
    using h4(7) nl2 l3 by (simp add: c3)
  let ?n5 = "\<lparr>nkey = k, nvalue = v, nleft = ptr l', nright = ptr r', nparent = None\<rparr>"
  define h5 where "h5 = h4[node := Some ?n5]"
  have u5: "update_node h4 node (\<lambda>x. x\<lparr>nright := ptr r'\<rparr>) = Some h5"
    by (simp add: update_node_def c4n h5_def)
  have c5: "\<And>x. cell h5 x = (if x = node then Some ?n5 else cell h4 x)"
    using nl4 by (simp add: h5_def cell_update)
  have l5: "length h5 = length h4" by (simp add: h5_def)
  have nl': "node \<notin> set (addrs l')" using h2(5) l1 by (auto simp: node_def)
  have nr': "node \<notin> set (addrs r')" using h4(5) l3 h2(6) l1 by (auto simp: node_def)
  have lr': "set (addrs l') \<inter> set (addrs r') = {}"
  proof -
    have "x < length h2" if "x \<in> set (addrs l')" for x using that h2(5) by auto
    moreover have "length h2 \<le> x" if "x \<in> set (addrs r')" for x using that h4(5) l3 by auto
    ultimately show ?thesis by fastforce
  qed
  have rl5: "rep h5 None l'"
    using h2(2) by (rule rep_frame) (use h2(5) h4(7) l3 nl' in \<open>auto simp: c5 c3\<close>)
  have rr5: "rep h5 None r'"
    using h4(2) by (rule rep_frame) (use nr' in \<open>auto simp: c5\<close>)
  from reparent_root[OF rl5 h2(4), of "Some node"] obtain h6 where
    h6: "(case ptr l' of None \<Rightarrow> Some h5
               | Some c \<Rightarrow> update_node h5 c (\<lambda>x. x\<lparr>nparent := Some node\<rparr>)) = Some h6"
      "rep h6 (Some node) l'" "length h6 = length h5" "\<forall>x. x \<notin> set (addrs l') \<longrightarrow> cell h6 x = cell h5 x"
    by blast
  have c6n: "cell h6 node = Some ?n5" using h6(4) nl' by (simp add: c5)
  have rr6: "rep h6 None r'"
    using rr5 by (rule rep_frame) (use h6(4) lr' in auto)
  from reparent_root[OF rr6 h4(4), of "Some node"] obtain h7 where
    h7: "(case ptr r' of None \<Rightarrow> Some h6
               | Some c \<Rightarrow> update_node h6 c (\<lambda>x. x\<lparr>nparent := Some node\<rparr>)) = Some h7"
      "rep h7 (Some node) r'" "length h7 = length h6" "\<forall>x. x \<notin> set (addrs r') \<longrightarrow> cell h7 x = cell h6 x"
    by blast
  have c7n: "cell h7 node = Some ?n5" using h7(4) nr' c6n by simp
  have rl7: "rep h7 (Some node) l'"
    using h6(2) by (rule rep_frame) (use h7(4) lr' in auto)
  have mc: "makeCopy h (ptr (Node l akv r)) = Some (h7, Some node)"
    by (subst makeCopy.simps)
       (simp add: akv ca nn c1 an h2(1) u3 ca3 h4(1) u5 c5 h6(1) c6n h7(1))
  let ?t' = "Node l' (node, k, v) r'"
  have f1: "makeCopy h (ptr (Node l akv r)) = Some (h7, ptr ?t')" using mc by simp
  have f2: "rep h7 None ?t'" using c7n rl7 h7(2) by simp
  have f3: "map_tree snd ?t' = map_tree snd (Node l akv r)"
    using h2(3) h4(3) by (simp add: akv)
  have f4: "distinct (addrs ?t')" using h2(4) h4(4) nl' nr' lr' by auto
  have f5: "set (addrs ?t') \<subseteq> {length h ..< length h7}"
    using h2(5,6) h4(5,6) l1 l3 l5 h6(3) h7(3) by (auto simp: node_def)
  have f6: "length h \<le> length h7"
    using h2(6) h4(6) l1 l3 l5 h6(3) h7(3) by simp
  have f7: "\<forall>x < length h. cell h7 x = cell h x"
  proof (intro allI impI)
    fix x assume x: "x < length h"
    then have "x \<notin> set (addrs l')" "x \<notin> set (addrs r')" "x \<noteq> node" "x < length h3"
      using h2(5,6) h4(5) l1 l3 by (auto simp: node_def)
    then show "cell h7 x = cell h x"
      using h7(4) h6(4) h4(7) old3[OF x] by (simp add: c5)
  qed
  show ?case
    by (intro exI[of _ h7] exI[of _ ?t'] conjI) (fact f1 f2 f3 f4 f5 f6 f7)+
qed

lemma clear_node_rep:
  "rep h par t \<Longrightarrow> distinct (addrs t) \<Longrightarrow>
     \<exists>h'. clear_node h (ptr t) = Some h' \<and> length h' = length h
       \<and> (\<forall>x. cell h' x = (if x \<in> set (addrs t) then None else cell h x))"
proof (induction t arbitrary: h par)
  case Leaf
  show ?case by (subst clear_node.simps) simp
next
  case (Node l akv r)
  obtain a k v where akv: "akv = (a, k, v)" by (cases akv)
  let ?n = "\<lparr>nkey = k, nvalue = v, nleft = ptr l, nright = ptr r, nparent = par\<rparr>"
  from Node.prems have ca: "cell h a = Some ?n" and rl: "rep h (Some a) l" and rr: "rep h (Some a) r"
    and al: "a \<notin> set (addrs l)" and ar: "a \<notin> set (addrs r)"
    and dl: "distinct (addrs l)" and dr: "distinct (addrs r)"
    and lr: "set (addrs l) \<inter> set (addrs r) = {}"
    by (auto simp: akv)
  from Node.IH(1)[OF rl dl] obtain h1 where
    h1: "clear_node h (ptr l) = Some h1" "length h1 = length h"
      "\<forall>x. cell h1 x = (if x \<in> set (addrs l) then None else cell h x)"
    by blast
  have ca1: "cell h1 a = Some ?n" using h1(3) al ca by simp
  have rr1: "rep h1 (Some a) r"
    using rr by (rule rep_frame) (use h1(3) lr in auto)
  from Node.IH(2)[OF rr1 dr] obtain h2 where
    h2: "clear_node h1 (ptr r) = Some h2" "length h2 = length h1"
      "\<forall>x. cell h2 x = (if x \<in> set (addrs r) then None else cell h1 x)"
    by blast
  have ca2: "cell h2 a = Some ?n" using h2(3) ar ca1 by simp
  have "clear_node h (ptr (Node l akv r)) = Some (h2[a := None])"
    by (subst clear_node.simps) (simp add: akv ca h1(1) ca1 h2(1) delete_Node_def ca2)
  moreover have "\<forall>x. cell (h2[a := None]) x = (if x \<in> set (addrs (Node l akv r)) then None else cell h x)"
    using h2(3) h1(3) cell_less[OF ca2] by (auto simp: akv cell_update)
  ultimately show ?case using h1(2) h2(2) by simp
qed

section \<open>Order, entries and shape under the operations\<close>

lemma entries_ins: "set (entries (ins (a, k, v) t)) = insert (k, v) (set (entries t))"
  by (induction t) (auto split: if_splits)

lemma ordered_ins: "ordered t \<Longrightarrow> ordered (ins (a, k, v) t)"
  by (induction t) (auto simp: entries_ins)

lemma ordered_sorted: "ordered t \<Longrightarrow> sorted (map fst (entries t))"
proof (induction t)
  case Leaf
  show ?case by simp
next
  case (Node l bkv r)
  obtain b k v where bkv: "bkv = (b, k, v)" by (cases bkv)
  from Node.prems have o: "ordered l" "ordered r" "\<forall>x \<in> set (entries l). fst x < k"
    "\<forall>x \<in> set (entries r). k \<le> fst x" by (simp_all add: bkv)
  have "\<forall>x \<in> set (entries l). fst x \<le> k" using o(3) by (auto intro: less_imp_le)
  moreover have "\<forall>x \<in> set (entries l). \<forall>y \<in> set (entries r). fst x \<le> fst y"
    using o(3,4) by (meson less_imp_le order_trans)
  ultimately show ?case
    using Node.IH(1)[OF o(1)] Node.IH(2)[OF o(2)] o(4)
    by (simp add: bkv sorted_append)
qed

lemma entries_del_node: "set (entries (del_node a t)) \<subseteq> set (entries t)"
proof (induction t arbitrary: a)
  case Leaf
  show ?case by simp
next
  case (Node l bkv r)
  obtain b k v where bkv: "bkv = (b, k, v)" by (cases bkv)
  have lm: "leftmost r = Some (s, ks, vs) \<Longrightarrow> (ks, vs) \<in> set (entries r)" for s ks vs
    using leftmost_in[of r "(s, ks, vs)"] by (force simp: entries_def)
  show ?case
    using Node.IH(1)[of a] Node.IH(2) lm
    by (auto simp: bkv split: option.splits)
qed

lemma leftmost_min:
  "ordered t \<Longrightarrow> leftmost t = Some (s, ks, vs) \<Longrightarrow> \<forall>x \<in> set (entries t). ks \<le> fst x"
proof (induction t)
  case Leaf
  then show ?case by simp
next
  case (Node l bkv r)
  obtain b k v where bkv: "bkv = (b, k, v)" by (cases bkv)
  show ?case
  proof (cases "l = Leaf")
    case True
    with Node.prems show ?thesis by (auto simp: bkv)
  next
    case False
    then have lm: "leftmost l = Some (s, ks, vs)"
      using Node.prems(2) leftmost_Some[OF False] by (auto simp: bkv)
    then have "(ks, vs) \<in> set (entries l)"
      using leftmost_in[of l "(s, ks, vs)"] by (force simp: entries_def)
    then have "ks < k" using Node.prems(1) by (auto simp: bkv)
    moreover have "\<forall>x \<in> set (entries l). ks \<le> fst x"
      using Node.IH(1) Node.prems(1) lm by (simp add: bkv)
    ultimately show ?thesis using Node.prems(1) by (auto simp: bkv intro: less_imp_le order_trans)
  qed
qed

lemma ordered_del_node: "ordered t \<Longrightarrow> ordered (del_node a t)"
proof (induction t arbitrary: a)
  case Leaf
  show ?case by simp
next
  case (Node l bkv r)
  obtain b k v where bkv: "bkv = (b, k, v)" by (cases bkv)
  from Node.prems have o: "ordered l" "ordered r" "\<forall>x \<in> set (entries l). fst x < k"
    "\<forall>x \<in> set (entries r). k \<le> fst x" by (simp_all add: bkv)
  have sl: "\<And>x. set (entries (del_node x l)) \<subseteq> set (entries l)"
    and sr: "\<And>x. set (entries (del_node x r)) \<subseteq> set (entries r)"
    by (rule entries_del_node)+
  show ?case
  proof (cases "a = b")
    case False
    then show ?thesis
      using Node.IH(1)[OF o(1), of a] Node.IH(2)[OF o(2), of a] o(3,4) sl[of a] sr[of a]
      by (auto simp: bkv)
  next
    case True
    show ?thesis
    proof (cases "l \<noteq> Leaf \<and> r \<noteq> Leaf")
      case False
      then show ?thesis using True o by (auto simp: bkv)
    next
      case two: True
      then obtain s ks vs where lm: "leftmost r = Some (s, ks, vs)"
        using leftmost_Some[of r] by (metis prod_cases3)
      have "(ks, vs) \<in> set (entries r)"
        using leftmost_in[OF lm] by (force simp: entries_def)
      then have kks: "k \<le> ks" using o(4) by auto
      have "\<forall>x \<in> set (entries l). fst x < ks" using o(3) kks by auto
      moreover have "\<forall>x \<in> set (entries (del_node s r)). ks \<le> fst x"
        using leftmost_min[OF o(2) lm] sr[of s] by blast
      ultimately have "ordered (Node l (b, ks, vs) (del_node s r))"
        using o(1) Node.IH(2)[OF o(2), of s] by simp
      then show ?thesis using True two lm by (simp add: bkv)
    qed
  qed
qed

lemma lookup_td_key: "lookup_td x t = Some (a, k, v) \<Longrightarrow> k = x \<and> a \<in> set (addrs t) \<and> (k, v) \<in> set (entries t)"
  by (induction t) (auto split: if_splits)

lemma lookup_td_None: "ordered t \<Longrightarrow> (lookup_td x t = None) = (x \<notin> fst ` set (entries t))"
proof (induction t)
  case Leaf
  show ?case by simp
next
  case (Node l bkv r)
  obtain b k v where bkv: "bkv = (b, k, v)" by (cases bkv)
  from Node.prems have o: "ordered l" "ordered r" "\<forall>y \<in> set (entries l). fst y < k"
    "\<forall>y \<in> set (entries r). k \<le> fst y" by (simp_all add: bkv)
  have nl: "x \<notin> fst ` set (entries l)" if "\<not> x < k" using that o(3) by auto
  have nr: "x \<notin> fst ` set (entries r)" if "x < k" using that o(4) by (auto simp: not_le[symmetric])
  show ?case
    using Node.IH(1)[OF o(1)] Node.IH(2)[OF o(2)] nl nr
    by (cases "x = k"; cases "x < k") (auto simp: bkv)
qed

lemma inorder_map_tree: "inorder (map_tree f t) = map f (inorder t)"
  by (induction t) auto

lemma entries_map_tree: "map_tree snd t' = map_tree snd t \<Longrightarrow> entries t' = entries t"
  using inorder_map_tree[of snd t'] inorder_map_tree[of snd t] by (simp add: entries_def)

lemma cheight_map_tree: "cheight (map_tree f t) = cheight t"
  by (induction t) auto

lemma cheight_same_shape: "map_tree snd t' = map_tree snd t \<Longrightarrow> cheight t' = cheight t"
  using cheight_map_tree[of snd t'] cheight_map_tree[of snd t] by simp

lemma ordered_same_shape: "map_tree snd t' = map_tree snd t \<Longrightarrow> ordered t' = ordered t"
proof (induction t arbitrary: t')
  case Leaf
  then show ?case by (cases t') auto
next
  case (Node l bkv r)
  then obtain l' x r' where t': "t' = Node l' x r'" by (cases t') auto
  obtain b k v where bkv: "bkv = (b, k, v)" by (cases bkv)
  obtain b' k' v' where x: "x = (b', k', v')" by (cases x)
  from Node.prems have e: "map_tree snd l' = map_tree snd l" "map_tree snd r' = map_tree snd r"
    "k' = k" "v' = v" by (simp_all add: t' bkv x)
  show ?case
    using Node.IH(1)[OF e(1)] Node.IH(2)[OF e(2)] entries_map_tree[OF e(1)] entries_map_tree[OF e(2)]
    by (simp add: t' bkv x e)
qed

section \<open>The public operations on a tree object\<close>

text \<open>Each operation returns, leaves a tree object, and changes no cell outside the nodes of
  the tree it works on; the nodes it adds are new ones.\<close>

lemma frame_refl: "frame h h A"
  by (simp add: frame_def)

lemma frame_trans:
  "frame h h1 A \<Longrightarrow> frame h1 h2 B \<Longrightarrow> B \<subseteq> A \<union> {length h ..< length h1} \<Longrightarrow> frame h h2 A"
  unfolding frame_def by (auto simp: subset_iff) (metis le_trans less_le_trans not_less)

lemma frame_mono: "frame h h' A \<Longrightarrow> A \<subseteq> B \<Longrightarrow> frame h h' B"
  unfolding frame_def by auto

lemma is_tree_frame:
  assumes "is_tree h ru u" "frame h h' A" "set (addrs u) \<inter> A = {}"
  shows "is_tree h' ru u"
proof -
  from assms(1) have rp: "rep h None u" by (simp add: is_tree_def)
  have "rep h' None u"
    using rp by (rule rep_frame) (use assms(2,3) rep_less[OF rp] in \<open>auto simp: frame_def\<close>)
  with assms(1) show ?thesis by (simp add: is_tree_def)
qed

lemma is_tree_less: "is_tree h rt t \<Longrightarrow> a \<in> set (addrs t) \<Longrightarrow> a < length h"
  by (auto simp: is_tree_def dest: rep_less)

lemma insert_bst_spec:
  assumes "is_tree h rt t"
  shows "\<exists>h' t'. insert_bst iter h rt k v = Some (h', ptr t') \<and> is_tree h' (ptr t') t'
     \<and> frame h h' (set (addrs t)) \<and> set (addrs t') \<subseteq> set (addrs t) \<union> {length h ..< length h'}
     \<and> t' = ins (length h, k, v) t"
  using insert_bst_rep[OF assms, of iter k v]
  by (auto simp: frame_def addrs_ins)

lemma searchRecursive_tree:
  "is_tree h rt t \<Longrightarrow> searchRecursive h rt k = Some (map_option fst (lookup_td k t))"
  by (auto simp: is_tree_def dest: searchRecursive_rep)

lemma search_node:
  "is_tree h rt t \<Longrightarrow>
     (if iter then searchIterative h rt k else searchRecursive h rt k)
       = Some (map_option fst (lookup_td k t))"
  by (simp add: search_variants_eq searchRecursive_tree)

lemma remove_node_None: "remove_node h rt None = Some (h, rt)"
  by (subst remove_node.simps) simp

lemma remove_bst_spec:
  assumes "is_tree h rt t"
  shows "\<exists>h' t'. remove_bst iter h rt k = Some (h', ptr t') \<and> is_tree h' (ptr t') t'
     \<and> frame h h' (set (addrs t)) \<and> set (addrs t') \<subseteq> set (addrs t) \<union> {length h ..< length h'}
     \<and> t' = remove_abs k t"
proof (cases "lookup_td k t")
  case None
  then have "remove_bst iter h rt k = Some (h, rt)"
    using search_node[OF assms, of iter k] by (simp add: remove_bst_def remove_node_None)
  then show ?thesis
    using assms None by (auto simp: remove_abs_def frame_refl is_tree_def)
next
  case (Some x)
  obtain a k' v where x: "x = (a, k', v)" by (cases x)
  have ain: "a \<in> set (addrs t)" using Some lookup_td_key[of k t a k' v] by (simp add: x)
  from remove_node_rep[OF assms ain] obtain h' where
    h': "remove_node h rt (Some a) = Some (h', ptr (del_node a t))"
      "is_tree h' (ptr (del_node a t)) (del_node a t)" "length h' = length h"
      "\<forall>x. x \<notin> set (addrs t) \<longrightarrow> cell h' x = cell h x"
    by blast
  have "remove_bst iter h rt k = Some (h', ptr (del_node a t))"
    using search_node[OF assms, of iter k] h'(1) by (simp add: remove_bst_def Some x)
  moreover have "remove_abs k t = del_node a t" by (simp add: remove_abs_def Some x)
  ultimately show ?thesis
    using h'(2,3,4) addrs_del_node[of a t] by (auto simp: frame_def)
qed

lemma clear_bst_spec:
  assumes "is_tree h rt t"
  shows "\<exists>h'. clear_bst h rt = Some (h', None) \<and> is_tree h' None Leaf
     \<and> frame h h' (set (addrs t)) \<and> length h' = length h
     \<and> (\<forall>x \<in> set (addrs t). cell h' x = None)"
proof -
  from assms have rt: "rt = ptr t" and rp: "rep h None t" and d: "distinct (addrs t)"
    by (simp_all add: is_tree_def)
  from clear_node_rep[OF rp d] show ?thesis
    by (auto simp: clear_bst_def rt frame_def is_tree_def)
qed

lemma copy_bst_spec:
  assumes "is_tree h rt t"
  shows "\<exists>h' t'. copy_bst h rt = Some (h', ptr t') \<and> is_tree h' (ptr t') t'
     \<and> frame h h' {} \<and> set (addrs t') \<subseteq> {length h ..< length h'}
     \<and> map_tree snd t' = map_tree snd t"
proof -
  from assms have rt: "rt = ptr t" and rp: "rep h None t" by (simp_all add: is_tree_def)
  from makeCopy_rep[OF rp] show ?thesis
    by (auto simp: copy_bst_def rt frame_def is_tree_def)
qed

lemma assign_bst_spec:
  assumes "is_tree h rt t" "is_tree h rs u"
  shows "\<exists>h' u'. assign_bst h rt rs = Some (h', ptr u') \<and> is_tree h' (ptr u') u'
     \<and> frame h h' (set (addrs t)) \<and> set (addrs u') \<subseteq> {length h ..< length h'}
     \<and> map_tree snd u' = map_tree snd u \<and> (\<forall>x \<in> set (addrs t). cell h' x = None)"
proof -
  from copy_bst_spec[OF assms(2)] obtain h1 u' where
    h1: "copy_bst h rs = Some (h1, ptr u')" "is_tree h1 (ptr u') u'" "frame h h1 {}"
      "set (addrs u') \<subseteq> {length h ..< length h1}" "map_tree snd u' = map_tree snd u"
    by blast
  have t1: "is_tree h1 rt t" using assms(1) h1(3) by (rule is_tree_frame) simp
  from clear_bst_spec[OF t1] obtain h2 where
    h2: "clear_bst h1 rt = Some (h2, None)" "frame h1 h2 (set (addrs t))" "length h2 = length h1"
      "\<forall>x \<in> set (addrs t). cell h2 x = None"
    by blast
  have disj: "set (addrs u') \<inter> set (addrs t) = {}"
    using h1(4) is_tree_less[OF assms(1)] by fastforce
  have "is_tree h2 (ptr u') u'" using h1(2) h2(2) disj by (rule is_tree_frame)
  moreover have "frame h h2 (set (addrs t))"
    using frame_mono[OF h1(3), of "set (addrs t)"] h2(2) by (rule frame_trans) auto
  moreover have "assign_bst h rt rs = Some (h2, ptr u')"
    by (simp add: assign_bst_def h1(1) h2(1))
  ultimately show ?thesis using h1(4,5) h2(3,4) by auto
qed

lemma ordered_remove_abs: "ordered t \<Longrightarrow> ordered (remove_abs k t)"
  by (auto simp: remove_abs_def ordered_del_node split: option.splits)

lemma mutate_spec:
  assumes "is_tree h rt t"
  shows "\<exists>h' t'. mutate iter m h rt = Some (h', ptr t') \<and> is_tree h' (ptr t') t'
     \<and> frame h h' (set (addrs t)) \<and> set (addrs t') \<subseteq> set (addrs t) \<union> {length h ..< length h'}
     \<and> (ordered t \<longrightarrow> ordered t')"
proof (cases m)
  case (Insert k v)
  from insert_bst_spec[OF assms, of iter k v] show ?thesis
    using ordered_ins[of t "length h" k v] by (simp add: Insert) blast
next
  case (Remove k)
  from remove_bst_spec[OF assms, of iter k] show ?thesis
    using ordered_remove_abs[of t k] by (simp add: Remove) blast
next
  case Clear
  from clear_bst_spec[OF assms] show ?thesis
    by (auto simp: Clear intro!: exI[of _ Leaf])
qed

lemma mutates_spec:
  "is_tree h rt t \<Longrightarrow>
     \<exists>h' t'. mutates iter ms h rt = Some (h', ptr t') \<and> is_tree h' (ptr t') t'
       \<and> frame h h' (set (addrs t)) \<and> set (addrs t') \<subseteq> set (addrs t) \<union> {length h ..< length h'}
       \<and> (ordered t \<longrightarrow> ordered t')"
proof (induction ms arbitrary: h rt t)
  case Nil
  then show ?case by (auto simp: frame_refl is_tree_def intro!: exI[of _ t])
next
  case (Cons m ms)
  from mutate_spec[OF Cons.prems, of iter m] obtain h1 t1 where
    s1: "mutate iter m h rt = Some (h1, ptr t1)" "is_tree h1 (ptr t1) t1"
      "frame h h1 (set (addrs t))" "set (addrs t1) \<subseteq> set (addrs t) \<union> {length h ..< length h1}"
      "ordered t \<longrightarrow> ordered t1"
    by blast
  from Cons.IH[OF s1(2)] obtain h2 t2 where
    s2: "mutates iter ms h1 (ptr t1) = Some (h2, ptr t2)" "is_tree h2 (ptr t2) t2"
      "frame h1 h2 (set (addrs t1))" "set (addrs t2) \<subseteq> set (addrs t1) \<union> {length h1 ..< length h2}"
      "ordered t1 \<longrightarrow> ordered t2"
    by blast
  have l: "length h \<le> length h1" "length h1 \<le> length h2" using s1(3) s2(3) by (auto simp: frame_def)
  have "frame h h2 (set (addrs t))" using s1(3) s2(3) s1(4) by (rule frame_trans)
  moreover have "set (addrs t2) \<subseteq> set (addrs t) \<union> {length h ..< length h2}"
    using s1(4) s2(4) l by fastforce
  moreover have "mutates iter (m # ms) h rt = Some (h2, ptr t2)" by (simp add: s1(1) s2(1))
  ultimately show ?case using s2(2) s1(5) s2(5) by blast
qed

section \<open>The invariant of programs\<close>

lemma state_inv_update:
  assumes inv: "state_inv (h, rs) ts" and i: "i < length rs"
    and t': "is_tree h' r' t'" "ordered t'"
    and fr: "frame h h' (set (addrs (ts ! i)))"
    and sub: "set (addrs t') \<subseteq> set (addrs (ts ! i)) \<union> {length h ..< length h'}"
  shows "state_inv (h', rs[i := r']) (ts[i := t'])"
proof -
  from inv have len: "length ts = length rs"
    and tr: "\<And>j. j < length rs \<Longrightarrow> is_tree h (rs ! j) (ts ! j) \<and> ordered (ts ! j)"
    and dj: "\<And>j k. j < length rs \<Longrightarrow> k < length rs \<Longrightarrow> j \<noteq> k \<Longrightarrow>
               set (addrs (ts ! j)) \<inter> set (addrs (ts ! k)) = {}"
    by (auto simp: state_inv_def)
  have old: "set (addrs (ts ! j)) \<subseteq> {..< length h}" if "j < length rs" for j
    using is_tree_less[of h "rs ! j" "ts ! j"] tr[OF that] by auto
  have other: "is_tree h' (rs ! j) (ts ! j)" if "j < length rs" "j \<noteq> i" for j
    using tr[OF that(1)] fr dj[OF that(1) i that(2)]
    by (auto intro: is_tree_frame)
  have dnew: "set (addrs t') \<inter> set (addrs (ts ! j)) = {}" if "j < length rs" "j \<noteq> i" for j
    using sub old[OF that(1)] dj[OF i that(1)] that(2) by fastforce
  show ?thesis
    unfolding state_inv_def
    using len i t' tr other dnew dj
    by (auto simp: nth_list_update)
qed

lemma state_inv_append:
  assumes inv: "state_inv (h, rs) ts"
    and t': "is_tree h' r' t'" "ordered t'"
    and fr: "frame h h' {}"
    and sub: "set (addrs t') \<subseteq> {length h ..< length h'}"
  shows "state_inv (h', rs @ [r']) (ts @ [t'])"
proof -
  from inv have len: "length ts = length rs"
    and tr: "\<And>j. j < length rs \<Longrightarrow> is_tree h (rs ! j) (ts ! j) \<and> ordered (ts ! j)"
    and dj: "\<And>j k. j < length rs \<Longrightarrow> k < length rs \<Longrightarrow> j \<noteq> k \<Longrightarrow>
               set (addrs (ts ! j)) \<inter> set (addrs (ts ! k)) = {}"
    by (auto simp: state_inv_def)
  have old: "set (addrs (ts ! j)) \<subseteq> {..< length h}" if "j < length rs" for j
    using is_tree_less[of h "rs ! j" "ts ! j"] tr[OF that] by auto
  have other: "is_tree h' (rs ! j) (ts ! j)" if "j < length rs" for j
    using tr[OF that] fr by (auto intro: is_tree_frame)
  have dnew: "set (addrs t') \<inter> set (addrs (ts ! j)) = {}" if "j < length rs" for j
    using sub old[OF that] by fastforce
  have dnew': "set (addrs (ts ! j)) \<inter> set (addrs t') = {}" if "j < length rs" for j
    using dnew[OF that] by blast
  show ?thesis
    unfolding state_inv_def
    using len t' tr other dnew dnew' dj
    by (auto simp: nth_append less_Suc_eq)
qed

lemma exec_inv:
  assumes inv: "state_inv (h, rs) ts" and v: "valid (length rs) c"
  shows "\<exists>h' rs' ts'. exec iter c (h, rs) = Some (h', rs') \<and> state_inv (h', rs') ts'
     \<and> length rs' = objects_after (length rs) c"
proof -
  from inv have len: "length ts = length rs"
    and tr: "\<And>j. j < length rs \<Longrightarrow> is_tree h (rs ! j) (ts ! j)"
    and od: "\<And>j. j < length rs \<Longrightarrow> ordered (ts ! j)"
    by (auto simp: state_inv_def)
  show ?thesis
  proof (cases c)
    case New
    have "is_tree h None Leaf" "ordered (Leaf :: ('a, 'b) atree)" "frame h h {}"
      "set (addrs (Leaf :: ('a, 'b) atree)) \<subseteq> {length h ..< length h}"
      by (simp_all add: is_tree_def frame_refl)
    from state_inv_append[OF inv this] show ?thesis
      by (auto simp: New)
  next
    case (Mutate i m)
    with v have i: "i < length rs" by simp
    from mutate_spec[OF tr[OF i], of iter m] od[OF i] obtain h' t' where
      m: "mutate iter m h (rs ! i) = Some (h', ptr t')" "is_tree h' (ptr t') t'"
        "frame h h' (set (addrs (ts ! i)))"
        "set (addrs t') \<subseteq> set (addrs (ts ! i)) \<union> {length h ..< length h'}" "ordered t'"
      by blast
    from state_inv_update[OF inv i m(2) m(5) m(3) m(4)] m(1) i show ?thesis
      by (auto simp: Mutate)
  next
    case (Copy i)
    with v have i: "i < length rs" by simp
    from copy_bst_spec[OF tr[OF i]] obtain h' t' where
      m: "copy_bst h (rs ! i) = Some (h', ptr t')" "is_tree h' (ptr t') t'" "frame h h' {}"
        "set (addrs t') \<subseteq> {length h ..< length h'}" "map_tree snd t' = map_tree snd (ts ! i)"
      by blast
    have "ordered t'" using ordered_same_shape[OF m(5)] od[OF i] by simp
    from state_inv_append[OF inv m(2) this m(3) m(4)] m(1) i show ?thesis
      by (auto simp: Copy)
  next
    case (Assign i j)
    with v have i: "i < length rs" and j: "j < length rs" by simp_all
    from assign_bst_spec[OF tr[OF i] tr[OF j]] obtain h' t' where
      m: "assign_bst h (rs ! i) (rs ! j) = Some (h', ptr t')" "is_tree h' (ptr t') t'"
        "frame h h' (set (addrs (ts ! i)))" "set (addrs t') \<subseteq> {length h ..< length h'}"
        "map_tree snd t' = map_tree snd (ts ! j)"
      by blast
    have o: "ordered t'" using ordered_same_shape[OF m(5)] od[OF j] by simp
    have "set (addrs t') \<subseteq> set (addrs (ts ! i)) \<union> {length h ..< length h'}" using m(4) by auto
    from state_inv_update[OF inv i m(2) o m(3) this] m(1) i j show ?thesis
      by (auto simp: Assign)
  qed
qed

lemma exec_valid: "exec iter c (h, rs) = Some s' \<Longrightarrow> valid (length rs) c"
  by (cases c) (auto split: if_splits)

lemma run_total:
  "state_inv (h, rs) ts \<Longrightarrow> valid_run (length rs) cs \<Longrightarrow> \<exists>s'. run iter cs (h, rs) = Some s'"
proof (induction cs arbitrary: h rs ts)
  case Nil
  show ?case by simp
next
  case (Cons c cs)
  from Cons.prems(2) have v: "valid (length rs) c" "valid_run (objects_after (length rs) c) cs"
    by simp_all
  from exec_inv[OF Cons.prems(1) v(1), of iter] obtain h' rs' ts' where
    e: "exec iter c (h, rs) = Some (h', rs')" "state_inv (h', rs') ts'"
      "length rs' = objects_after (length rs) c"
    by blast
  from Cons.IH[OF e(2)] v(2) e(3) obtain s' where "run iter cs (h', rs') = Some s'" by auto
  then show ?case by (simp add: e(1))
qed

lemma run_inv:
  "state_inv (h, rs) ts \<Longrightarrow> run iter cs (h, rs) = Some s' \<Longrightarrow> \<exists>ts'. state_inv s' ts'"
proof (induction cs arbitrary: h rs ts)
  case Nil
  then show ?case by auto
next
  case (Cons c cs)
  from Cons.prems(2) obtain s1 where s1: "exec iter c (h, rs) = Some s1" "run iter cs s1 = Some s'"
    by (auto split: bind_splits)
  from exec_inv[OF Cons.prems(1) exec_valid[OF s1(1)], of iter] s1(1) obtain h' rs' ts' where
    e: "s1 = (h', rs')" "state_inv (h', rs') ts'"
    by auto
  from Cons.IH[OF e(2)] s1(2) e(1) show ?case by simp
qed

lemma initial_inv: "state_inv initial [Leaf]"
  by (simp add: state_inv_def initial_def is_tree_def)

lemma node_ordered_rep:
  "rep h par t \<Longrightarrow> ordered t \<Longrightarrow> a \<in> set (addrs t) \<Longrightarrow> node_ordered h a"
proof (induction t arbitrary: par)
  case Leaf
  then show ?case by simp
next
  case (Node l bkv r)
  obtain b k v where bkv: "bkv = (b, k, v)" by (cases bkv)
  from Node.prems have cb: "cell h b = Some \<lparr>nkey = k, nvalue = v, nleft = ptr l, nright = ptr r, nparent = par\<rparr>"
    and rl: "rep h (Some b) l" and rr: "rep h (Some b) r"
    and o: "ordered l" "ordered r" "\<forall>x \<in> set (entries l). fst x < k" "\<forall>x \<in> set (entries r). k \<le> fst x"
    by (simp_all add: bkv)
  from Node.prems(3) consider "a = b" | "a \<in> set (addrs l)" | "a \<in> set (addrs r)"
    by (auto simp: bkv)
  then show ?case
  proof cases
    case 1
    then show ?thesis
      using cb printInorder_rep[OF rl] printInorder_rep[OF rr] o(3,4)
      by (simp add: node_ordered_def)
  next
    case 2
    then show ?thesis using Node.IH(1)[OF rl o(1)] by blast
  next
    case 3
    then show ?thesis using Node.IH(2)[OF rr o(2)] by blast
  qed
qed

lemma child_ok_rep: "rep h (Some a) t \<Longrightarrow> child_ok h a (ptr t)"
  by (cases t) (auto simp: child_ok_def)

lemma links_ok_rep: "rep h par t \<Longrightarrow> a \<in> set (addrs t) \<Longrightarrow> links_ok h a"
proof (induction t arbitrary: par)
  case Leaf
  then show ?case by simp
next
  case (Node l bkv r)
  obtain b k v where bkv: "bkv = (b, k, v)" by (cases bkv)
  from Node.prems have cb: "cell h b = Some \<lparr>nkey = k, nvalue = v, nleft = ptr l, nright = ptr r, nparent = par\<rparr>"
    and rl: "rep h (Some b) l" and rr: "rep h (Some b) r"
    by (simp_all add: bkv)
  from Node.prems(2) consider "a = b" | "a \<in> set (addrs l)" | "a \<in> set (addrs r)"
    by (auto simp: bkv)
  then show ?case
  proof cases
    case 1
    then show ?thesis
      using cb child_ok_rep[OF rl] child_ok_rep[OF rr] by (simp add: links_ok_def)
  next
    case 2
    then show ?thesis using Node.IH(1)[OF rl] by blast
  next
    case 3
    then show ?thesis using Node.IH(2)[OF rr] by blast
  qed
qed

lemma root_ok_tree: "is_tree h rt t \<Longrightarrow> root_ok h rt"
  by (cases t) (auto simp: is_tree_def root_ok_def)

section \<open>Properties of the operations\<close>

lemma grades_inserted: "inserts iter grades [] None = Some (grade_heap, Some 0)"
  by (cases iter)
     (simp_all add: grades_def grade_heap_def insert_bst_def new_Node_def insertRecursive.simps
        insertIterative_def insertIterative_loop.simps cell_def update_node_def)

lemma grade_copy_remove:
  "\<exists>h1 h2. copy_bst grade_heap (Some 0) = Some (h1, Some 5)
     \<and> mutates False [Remove ''Ellen''] h1 (Some 5) = Some (h2, Some 5)
     \<and> getHeight h2 (Some 5) = Some 2"
  by (simp add: grade_heap_def copy_bst_def makeCopy.simps new_Node_def cell_def update_node_def
      remove_bst_def searchRecursive.simps remove_node.simps succ_loop.simps replaceChild_def
      delete_Node_def getHeight.simps)

lemma grade_is_tree: "is_tree grade_heap (Some 0) grade_tree"
  by (simp add: is_tree_def grade_heap_def grade_tree_def cell_def)

lemma grade_ordered: "ordered grade_tree"
  by (simp add: grade_tree_def)

lemma grade_is_bst: "is_bst grade_heap (Some 0) grade_tree"
  by (simp add: is_bst_def grade_is_tree grade_ordered)

lemma lookup_td_cell:
  "rep h par t \<Longrightarrow> lookup_td x t = Some (a, k, v) \<Longrightarrow>
     \<exists>n. cell h a = Some n \<and> nkey n = k \<and> nvalue n = v"
  by (induction t arbitrary: par) (auto split: if_splits)

lemma lookup_td_absent: "x \<notin> fst ` set (entries t) \<Longrightarrow> lookup_td x t = None"
proof (cases "lookup_td x t")
  case None
  then show ?thesis by simp
next
  case (Some y)
  assume nin: "x \<notin> fst ` set (entries t)"
  obtain a k v where "y = (a, k, v)" by (cases y)
  with Some lookup_td_key[of x t a k v] have "(x, v) \<in> set (entries t)" by auto
  with nin show ?thesis by force
qed

lemma search_tree:
  assumes "is_tree h rt t"
  shows "search iter h rt k =
     Some (case lookup_td k t of None \<Rightarrow> Inl Key_not_found | Some (a, k', v) \<Rightarrow> Inr v)"
proof (cases "lookup_td k t")
  case None
  then show ?thesis using search_node[OF assms, of iter k] by (simp add: search_def)
next
  case (Some y)
  obtain a k' v where y: "y = (a, k', v)" by (cases y)
  from assms have "rep h None t" by (simp add: is_tree_def)
  from lookup_td_cell[OF this Some[unfolded y]] obtain n where "cell h a = Some n" "nvalue n = v"
    by blast
  then show ?thesis using search_node[OF assms, of iter k] by (simp add: search_def Some y)
qed

lemma printInorder_tree: "is_tree h rt t \<Longrightarrow> printInorder h rt = Some (entries t)"
  by (auto simp: is_tree_def dest: printInorder_rep)

lemma getHeight_tree: "is_tree h rt t \<Longrightarrow> getHeight h rt = Some (cheight t)"
  by (auto simp: is_tree_def dest: getHeight_rep)

lemma length_entries_ins: "length (entries (ins (a, k, v) t)) = Suc (length (entries t))"
  by (induction t) auto

lemma inserts_spec:
  "is_tree h rt t \<Longrightarrow> ordered t \<Longrightarrow>
     \<exists>h' t'. inserts iter kvs h rt = Some (h', ptr t') \<and> is_tree h' (ptr t') t' \<and> ordered t'
       \<and> set (entries t') = set kvs \<union> set (entries t)
       \<and> length (entries t') = length kvs + length (entries t)"
proof (induction kvs arbitrary: h rt t)
  case Nil
  then show ?case by (auto simp: is_tree_def intro!: exI[of _ t])
next
  case (Cons kv kvs)
  obtain k v where kv: "kv = (k, v)" by (cases kv)
  from insert_bst_spec[OF Cons.prems(1), of iter k v] obtain h1 where
    h1: "insert_bst iter h rt k v = Some (h1, ptr (ins (length h, k, v) t))"
      "is_tree h1 (ptr (ins (length h, k, v) t)) (ins (length h, k, v) t)"
    by blast
  from Cons.IH[OF h1(2) ordered_ins[OF Cons.prems(2)]] obtain h2 t2 where
    h2: "inserts iter kvs h1 (ptr (ins (length h, k, v) t)) = Some (h2, ptr t2)"
      "is_tree h2 (ptr t2) t2" "ordered t2"
      "set (entries t2) = set kvs \<union> set (entries (ins (length h, k, v) t))"
      "length (entries t2) = length kvs + length (entries (ins (length h, k, v) t))"
    by blast
  have "inserts iter (kv # kvs) h rt = Some (h2, ptr t2)" by (simp add: kv h1(1) h2(1))
  then show ?case
    using h2(2,3,4,5) by (auto simp: kv entries_ins length_entries_ins)
qed

text \<open>
  C8. For every heap, root and key the iterative and the recursive search return the same
  result, whichever variant \<^verbatim>\<open>search\<close> is compiled with; on a tree both return, with the
  node found by the top-down descent, or with \<^verbatim>\<open>nullptr\<close> when the descent finds none.
\<close>

theorem search_variants_agree:
  "searchIterative h rt k = searchRecursive h rt k
   \<and> search True h rt k = search False h rt k
   \<and> (is_tree h rt t \<longrightarrow>
        searchIterative h rt k = Some (map_option fst (lookup_td k t))
        \<and> searchRecursive h rt k = Some (map_option fst (lookup_td k t)))"
  by (simp add: search_variants_eq search_def searchRecursive_tree)

theorem search_variants_agree_witness:
  "is_tree grade_heap (Some 0) grade_tree
   \<and> searchIterative grade_heap (Some 0) ''Kevin'' = Some (Some 3)
   \<and> searchRecursive grade_heap (Some 0) ''Kevin'' = Some (Some 3)
   \<and> searchIterative grade_heap (Some 0) ''Zoe'' = Some None
   \<and> searchRecursive grade_heap (Some 0) ''Zoe'' = Some None"
  using search_variants_agree[of grade_heap "Some 0" "''Kevin''" grade_tree]
    search_variants_agree[of grade_heap "Some 0" "''Zoe''" grade_tree] grade_is_tree
  by (simp add: grade_tree_def)

text \<open>
  C3. On a binary search tree, \<^verbatim>\<open>search\<close> throws "Key not found" exactly when no entry of
  the tree has the key; otherwise it returns the value of the first node that the top-down
  descent meets (left when the key is less, right otherwise). \<^verbatim>\<open>search\<close> is a \<^verbatim>\<open>const\<close>
  member that writes to no node, so the model gives it no heap to return: the tree is the
  one the call was given. The entries of the tree are what \<^verbatim>\<open>printInorder\<close> writes.
\<close>

theorem search_spec:
  assumes "is_bst h rt t"
  shows "printInorder h rt = Some (entries t)
     \<and> (search iter h rt k = Some (Inl Key_not_found)) = (k \<notin> fst ` set (entries t))
     \<and> search iter h rt k =
         Some (case lookup_td k t of None \<Rightarrow> Inl Key_not_found | Some (a, k', v) \<Rightarrow> Inr v)"
proof -
  from assms have tr: "is_tree h rt t" and o: "ordered t" by (simp_all add: is_bst_def)
  have "(search iter h rt k = Some (Inl Key_not_found)) = (lookup_td k t = None)"
    by (auto simp: search_tree[OF tr] split: option.splits)
  then show ?thesis
    using search_tree[OF tr, of iter k] printInorder_tree[OF tr] lookup_td_None[OF o, of k]
    by simp
qed

theorem search_spec_witness:
  "is_bst grade_heap (Some 0) grade_tree
   \<and> search False grade_heap (Some 0) ''Ellen'' = Some (Inr 3.5)
   \<and> search False grade_heap (Some 0) ''Zoe'' = Some (Inl Key_not_found)
   \<and> ''Zoe'' \<notin> fst ` set (entries grade_tree)"
  using search_spec[OF grade_is_bst, of False "''Ellen''"]
    search_spec[OF grade_is_bst, of False "''Zoe''"] grade_is_bst
  by (simp add: grade_tree_def)

text \<open>
  C4. On a tree that has no entry with the key, \<^verbatim>\<open>remove( key )\<close> returns normally and
  leaves the heap and the root as they were; so the in-order sequence and the height,
  which are defined on a tree, are the same after the call as before.
\<close>

theorem remove_absent_key:
  assumes "is_tree h rt t" "k \<notin> fst ` set (entries t)"
  shows "\<exists>h' rt'. remove_bst iter h rt k = Some (h', rt') \<and> h' = h \<and> rt' = rt
     \<and> printInorder h' rt' = Some (entries t) \<and> printInorder h rt = Some (entries t)
     \<and> getHeight h' rt' = Some (cheight t) \<and> getHeight h rt = Some (cheight t)"
proof -
  have "lookup_td k t = None" using assms(2) by (rule lookup_td_absent)
  then have "remove_bst iter h rt k = Some (h, rt)"
    using search_node[OF assms(1), of iter k] by (simp add: remove_bst_def remove_node_None)
  then show ?thesis
    using printInorder_tree[OF assms(1)] getHeight_tree[OF assms(1)] by simp
qed

theorem remove_absent_key_witness:
  "is_tree grade_heap (Some 0) grade_tree \<and> ''Zoe'' \<notin> fst ` set (entries grade_tree)
   \<and> remove_bst False grade_heap (Some 0) ''Zoe'' = Some (grade_heap, Some 0)
   \<and> getHeight grade_heap (Some 0) = Some 3"
proof -
  have a: "''Zoe'' \<notin> fst ` set (entries grade_tree)" by (simp add: grade_tree_def)
  show ?thesis
    using remove_absent_key[OF grade_is_tree a, of False] grade_is_tree a
    by (auto simp: grade_tree_def)
qed

text \<open>
  C2. Whatever (key, value) pairs are inserted, in whatever order, into an empty tree, the
  insertions return, and the in-order traversal of the result then writes the keys in
  non-decreasing order; it writes exactly the pairs that were inserted.
\<close>

theorem inserts_inorder_sorted:
  "\<exists>h rt out. inserts iter kvs [] None = Some (h, rt) \<and> printInorder h rt = Some out
     \<and> sorted (map fst out) \<and> set out = set kvs \<and> length out = length kvs"
proof -
  have e: "is_tree ([] :: ('a, 'b) heap) None Leaf" "ordered (Leaf :: ('a, 'b) atree)"
    by (simp_all add: is_tree_def)
  from inserts_spec[OF e, of iter kvs] obtain h' t' where
    r: "inserts iter kvs [] None = Some (h', ptr t')" "is_tree h' (ptr t') t'" "ordered t'"
      "set (entries t') = set kvs" "length (entries t') = length kvs"
    by auto
  show ?thesis
    using r printInorder_tree[OF r(2)] ordered_sorted[OF r(3)] by auto
qed

text \<open>
  C9. The scenario of \<^verbatim>\<open>main\<close>: after the five insertions the height is 3, the search for
  "Ellen" returns 3.5, and the in-order traversal writes the keys Chen, Ellen, Kevin, Kumar,
  Ricardo.
\<close>

theorem grades_scenario:
  "\<exists>h rt. inserts iter grades [] None = Some (h, rt)
     \<and> getHeight h rt = Some 3
     \<and> search iter h rt ''Ellen'' = Some (Inr 3.5)
     \<and> map_option (map fst) (printInorder h rt)
         = Some [''Chen'', ''Ellen'', ''Kevin'', ''Kumar'', ''Ricardo'']"
proof -
  have "getHeight grade_heap (Some 0) = Some 3"
    by (simp add: grade_heap_def getHeight.simps cell_def)
  moreover have "search iter grade_heap (Some 0) ''Ellen'' = Some (Inr 3.5)"
    by (simp add: grade_heap_def search_def search_variants_eq searchRecursive.simps cell_def)
  moreover have "map_option (map fst) (printInorder grade_heap (Some 0))
      = Some [''Chen'', ''Ellen'', ''Kevin'', ''Kumar'', ''Ricardo'']"
    by (simp add: grade_heap_def printInorder.simps cell_def)
  ultimately show ?thesis
    using grades_inserted[of iter] by simp
qed

text \<open>
  C10. Self-assignment \<^verbatim>\<open>t = t\<close> returns and leaves the contents of the tree as they
  were: the in-order sequence and the height after the assignment are those before it. (The
  nodes are new ones: the parameter is a copy, and the old nodes are released.)
\<close>

theorem self_assignment:
  assumes "is_tree h rt t"
  shows "\<exists>h' rt' t'. assign_bst h rt rt = Some (h', rt') \<and> is_tree h' rt' t'
     \<and> printInorder h' rt' = Some (entries t) \<and> printInorder h rt = Some (entries t)
     \<and> getHeight h' rt' = Some (cheight t) \<and> getHeight h rt = Some (cheight t)"
proof -
  from assign_bst_spec[OF assms assms] obtain h' u' where
    r: "assign_bst h rt rt = Some (h', ptr u')" "is_tree h' (ptr u') u'"
      "map_tree snd u' = map_tree snd t"
    by blast
  show ?thesis
    using r(1,2) printInorder_tree[OF r(2)] getHeight_tree[OF r(2)]
      printInorder_tree[OF assms] getHeight_tree[OF assms]
      entries_map_tree[OF r(3)] cheight_same_shape[OF r(3)]
    by auto
qed

theorem self_assignment_witness:
  "is_tree grade_heap (Some 0) grade_tree
   \<and> (\<exists>h' rt'. assign_bst grade_heap (Some 0) (Some 0) = Some (h', rt')
        \<and> getHeight h' rt' = Some 3
        \<and> map_option (map fst) (printInorder h' rt')
            = Some [''Chen'', ''Ellen'', ''Kevin'', ''Kumar'', ''Ricardo''])"
  using self_assignment[OF grade_is_tree] grade_is_tree
  by (auto simp: grade_tree_def)

text \<open>
  C6. The copy constructor returns a tree with the contents and the height of the
  original, on nodes of its own; and whatever insertions, removals and clears are then
  applied to the copy, they return, and the original is the same tree as before, with the
  same in-order sequence and the same height.
\<close>

theorem copy_is_independent:
  assumes "is_tree h rt t"
  shows "\<exists>h1 r1 t1. copy_bst h rt = Some (h1, r1) \<and> is_tree h1 r1 t1
     \<and> map_tree snd t1 = map_tree snd t \<and> set (addrs t1) \<inter> set (addrs t) = {}
     \<and> printInorder h1 r1 = printInorder h rt \<and> getHeight h1 r1 = getHeight h rt
     \<and> (\<forall>ms. \<exists>h2 r2. mutates iter ms h1 r1 = Some (h2, r2) \<and> is_tree h2 rt t
           \<and> printInorder h2 rt = Some (entries t) \<and> printInorder h rt = Some (entries t)
           \<and> getHeight h2 rt = Some (cheight t) \<and> getHeight h rt = Some (cheight t))"
proof -
  from copy_bst_spec[OF assms] obtain h1 t1 where
    c: "copy_bst h rt = Some (h1, ptr t1)" "is_tree h1 (ptr t1) t1" "frame h h1 {}"
      "set (addrs t1) \<subseteq> {length h ..< length h1}" "map_tree snd t1 = map_tree snd t"
    by blast
  have disj: "set (addrs t1) \<inter> set (addrs t) = {}"
    using c(4) is_tree_less[OF assms] by fastforce
  have o1: "is_tree h1 rt t" using assms c(3) by (rule is_tree_frame) simp
  have same: "printInorder h1 (ptr t1) = printInorder h rt" "getHeight h1 (ptr t1) = getHeight h rt"
    using printInorder_tree[OF c(2)] getHeight_tree[OF c(2)] printInorder_tree[OF assms]
      getHeight_tree[OF assms] entries_map_tree[OF c(5)] cheight_same_shape[OF c(5)]
    by simp_all
  have "\<exists>h2 r2. mutates iter ms h1 (ptr t1) = Some (h2, r2) \<and> is_tree h2 rt t
           \<and> printInorder h2 rt = Some (entries t) \<and> printInorder h rt = Some (entries t)
           \<and> getHeight h2 rt = Some (cheight t) \<and> getHeight h rt = Some (cheight t)" for ms
  proof -
    from mutates_spec[OF c(2), of iter ms] obtain h2 r2 where
      m: "mutates iter ms h1 (ptr t1) = Some (h2, r2)" "frame h1 h2 (set (addrs t1))"
      by blast
    have o2: "is_tree h2 rt t" using o1 m(2) by (rule is_tree_frame) (use disj in auto)
    show ?thesis
      using m(1) o2 printInorder_tree[OF o2] getHeight_tree[OF o2]
        printInorder_tree[OF assms] getHeight_tree[OF assms]
      by simp
  qed
  then show ?thesis
    using c(1,2,5) disj same by blast
qed

theorem copy_is_independent_witness:
  "is_tree grade_heap (Some 0) grade_tree
   \<and> (\<exists>h1 r1 h2 r2. copy_bst grade_heap (Some 0) = Some (h1, r1)
        \<and> mutates False [Remove ''Ellen''] h1 r1 = Some (h2, r2)
        \<and> getHeight h2 r2 = Some 2
        \<and> getHeight h2 (Some 0) = Some 3)"
proof -
  from copy_is_independent[OF grade_is_tree, of False] obtain h1 r1 where
    c: "copy_bst grade_heap (Some 0) = Some (h1, r1)"
      "\<forall>ms. \<exists>h2 r2. mutates False ms h1 r1 = Some (h2, r2)
           \<and> getHeight h2 (Some 0) = Some (cheight grade_tree)"
    by blast
  from c(2) obtain h2 r2 where
    m: "mutates False [Remove ''Ellen''] h1 r1 = Some (h2, r2)"
      "getHeight h2 (Some 0) = Some (cheight grade_tree)"
    by blast
  from c(1) m(1) grade_copy_remove have "getHeight h2 r2 = Some 2" by simp
  with c(1) m grade_is_tree show ?thesis
    by (auto simp: grade_tree_def)
qed

lemma main_run: "run False main_cmds initial = Some (main_heap, [Some 0, Some 5])"
  by (simp add: main_cmds_def initial_def main_heap_def grade_heap_def insert_bst_def new_Node_def
      insertRecursive.simps cell_def update_node_def assign_bst_def copy_bst_def makeCopy.simps
      clear_bst_def clear_node.simps delete_Node_def remove_bst_def searchRecursive.simps
      remove_node.simps succ_loop.simps replaceChild_def)

lemma main_valid: "valid_run 1 main_cmds"
  by (simp add: main_cmds_def)

lemma locate_node:
  "rep h par t \<Longrightarrow> distinct (addrs t) \<Longrightarrow> a \<in> set (addrs t) \<Longrightarrow>
     \<exists>l k v r p. rep h p (Node l (a, k, v) r) \<and> distinct (addrs (Node l (a, k, v) r))
       \<and> set (addrs (Node l (a, k, v) r)) \<subseteq> set (addrs t)
       \<and> (\<forall>b. ptr t = Some b \<longrightarrow> b \<noteq> a \<longrightarrow> b \<notin> set (addrs (Node l (a, k, v) r)))"
proof (induction t arbitrary: par)
  case Leaf
  then show ?case by simp
next
  case (Node l0 bkv r0)
  obtain b k0 v0 where bkv: "bkv = (b, k0, v0)" by (cases bkv)
  from Node.prems have rl: "rep h (Some b) l0" and rr: "rep h (Some b) r0"
    and dl: "distinct (addrs l0)" and dr: "distinct (addrs r0)"
    and bl: "b \<notin> set (addrs l0)" and br: "b \<notin> set (addrs r0)"
    by (auto simp: bkv)
  from Node.prems(3) consider "a = b" | "a \<in> set (addrs l0)" | "a \<in> set (addrs r0)"
    by (auto simp: bkv)
  then show ?case
  proof cases
    case 1
    have "rep h par (Node l0 (a, k0, v0) r0)" "distinct (addrs (Node l0 (a, k0, v0) r0))"
      using Node.prems(1,2) 1 by (simp_all add: bkv)
    then show ?thesis
      using 1 by (intro exI[of _ l0] exI[of _ k0] exI[of _ v0] exI[of _ r0] exI[of _ par])
        (simp add: bkv)
  next
    case 2
    from Node.IH(1)[OF rl dl 2] obtain l k v r p where
      s: "rep h p (Node l (a, k, v) r)" "distinct (addrs (Node l (a, k, v) r))"
        "set (addrs (Node l (a, k, v) r)) \<subseteq> set (addrs l0)"
      by blast
    have "set (addrs (Node l (a, k, v) r)) \<subseteq> set (addrs (Node l0 bkv r0))"
      using s(3) by (auto simp: bkv)
    moreover have "\<forall>c. ptr (Node l0 bkv r0) = Some c \<longrightarrow> c \<noteq> a \<longrightarrow> c \<notin> set (addrs (Node l (a, k, v) r))"
      using s(3) bl by (auto simp: bkv)
    ultimately show ?thesis using s(1,2) by blast
  next
    case 3
    from Node.IH(2)[OF rr dr 3] obtain l k v r p where
      s: "rep h p (Node l (a, k, v) r)" "distinct (addrs (Node l (a, k, v) r))"
        "set (addrs (Node l (a, k, v) r)) \<subseteq> set (addrs r0)"
      by blast
    have "set (addrs (Node l (a, k, v) r)) \<subseteq> set (addrs (Node l0 bkv r0))"
      using s(3) by (auto simp: bkv)
    moreover have "\<forall>c. ptr (Node l0 bkv r0) = Some c \<longrightarrow> c \<noteq> a \<longrightarrow> c \<notin> set (addrs (Node l (a, k, v) r))"
      using s(3) br by (auto simp: bkv)
    ultimately show ?thesis using s(1,2) by blast
  qed
qed

lemma leftmost_entries:
  "distinct (addrs t) \<Longrightarrow> leftmost t = Some (s, ks, vs) \<Longrightarrow>
     entries t = (ks, vs) # entries (del_node s t)"
proof (induction t)
  case Leaf
  then show ?case by simp
next
  case (Node l bkv r)
  obtain b k v where bkv: "bkv = (b, k, v)" by (cases bkv)
  show ?case
  proof (cases "l = Leaf")
    case True
    with Node.prems show ?thesis by (auto simp: bkv)
  next
    case False
    then have lm: "leftmost l = Some (s, ks, vs)"
      using Node.prems(2) leftmost_Some[OF False] by (auto simp: bkv)
    have sl: "s \<in> set (addrs l)" using lm by (rule leftmost_addr)
    with Node.prems(1) have sb: "s \<noteq> b" and sr: "s \<notin> set (addrs r)" by (auto simp: bkv)
    from Node.prems(1) have "distinct (addrs l)" by (simp add: bkv)
    from Node.IH(1)[OF this lm] show ?thesis
      using sb sr by (simp add: bkv del_node_notin)
  qed
qed

lemma entries_del_node_split:
  "rep h par t \<Longrightarrow> distinct (addrs t) \<Longrightarrow> a \<in> set (addrs t) \<Longrightarrow> cell h a = Some n \<Longrightarrow>
     \<exists>xs ys. entries t = xs @ (nkey n, nvalue n) # ys \<and> entries (del_node a t) = xs @ ys"
proof (induction t arbitrary: par)
  case Leaf
  then show ?case by simp
next
  case (Node l bkv r)
  obtain b k v where bkv: "bkv = (b, k, v)" by (cases bkv)
  from Node.prems have cb: "cell h b = Some \<lparr>nkey = k, nvalue = v, nleft = ptr l, nright = ptr r, nparent = par\<rparr>"
    and rl: "rep h (Some b) l" and rr: "rep h (Some b) r"
    and dl: "distinct (addrs l)" and dr: "distinct (addrs r)"
    and bl: "b \<notin> set (addrs l)" and br: "b \<notin> set (addrs r)"
    and lr: "set (addrs l) \<inter> set (addrs r) = {}"
    by (auto simp: bkv)
  from Node.prems(3) consider "a = b" | "a \<in> set (addrs l)" | "a \<in> set (addrs r)"
    by (auto simp: bkv)
  then show ?case
  proof cases
    case 1
    with cb Node.prems(4) have n: "nkey n = k" "nvalue n = v" by auto
    show ?thesis
    proof (cases "l \<noteq> Leaf \<and> r \<noteq> Leaf")
      case False
      then have "entries (del_node a (Node l bkv r)) = entries l @ entries r"
        using 1 by (auto simp: bkv)
      then show ?thesis using n by (auto simp: bkv)
    next
      case True
      then obtain s ks vs where lm: "leftmost r = Some (s, ks, vs)"
        using leftmost_Some[of r] by (metis prod_cases3)
      have "entries (del_node a (Node l bkv r)) = entries l @ entries r"
        using 1 True lm leftmost_entries[OF dr lm] by (simp add: bkv)
      then show ?thesis using n by (auto simp: bkv)
    qed
  next
    case 2
    then have ab: "a \<noteq> b" and ar: "a \<notin> set (addrs r)" using bl lr by auto
    from Node.IH(1)[OF rl dl 2 Node.prems(4)] obtain xs ys where
      "entries l = xs @ (nkey n, nvalue n) # ys" "entries (del_node a l) = xs @ ys" by blast
    then show ?thesis
      using ab ar by (intro exI[of _ xs] exI[of _ "ys @ (k, v) # entries r"])
        (simp add: bkv del_node_notin)
  next
    case 3
    then have ab: "a \<noteq> b" and al: "a \<notin> set (addrs l)" using br lr by auto
    from Node.IH(2)[OF rr dr 3 Node.prems(4)] obtain xs ys where
      "entries r = xs @ (nkey n, nvalue n) # ys" "entries (del_node a r) = xs @ ys" by blast
    then show ?thesis
      using ab al by (intro exI[of _ "entries l @ (k, v) # xs"] exI[of _ ys])
        (simp add: bkv del_node_notin)
  qed
qed

text \<open>
  C1. In every state that a program of insertions, removals, clears, copies (and
  assignments) reaches from the empty tree, every tree of the program is an ordered tree:
  at every node, each key of the left subtree is less than the node's key and each key of
  the right subtree is greater or equal. A valid program always has a result.
\<close>

theorem ordering_invariant:
  "(valid_run 1 cs \<longrightarrow> (\<exists>s. run iter cs initial = Some s))
   \<and> (\<forall>h rs i. run iter cs initial = Some (h, rs) \<and> i < length rs \<longrightarrow>
        (\<exists>t. is_tree h (rs ! i) t \<and> ordered t \<and> (\<forall>a \<in> set (addrs t). node_ordered h a)))"
proof (intro conjI allI impI)
  assume "valid_run 1 cs"
  then show "\<exists>s. run iter cs initial = Some s"
    using run_total[OF initial_inv[unfolded initial_def], of cs iter] by (simp add: initial_def)
next
  fix h rs i
  assume a: "run iter cs initial = Some (h, rs) \<and> i < length rs"
  from run_inv[OF initial_inv[unfolded initial_def], of iter cs "(h, rs)"] a
  obtain ts where "state_inv (h, rs) ts" by (auto simp: initial_def)
  with a have t: "is_tree h (rs ! i) (ts ! i)" "ordered (ts ! i)" by (auto simp: state_inv_def)
  then have "\<forall>a \<in> set (addrs (ts ! i)). node_ordered h a"
    by (auto simp: is_tree_def intro: node_ordered_rep)
  with t show "\<exists>t. is_tree h (rs ! i) t \<and> ordered t \<and> (\<forall>a \<in> set (addrs t). node_ordered h a)"
    by blast
qed

theorem ordering_invariant_witness:
  "valid_run 1 main_cmds \<and> run False main_cmds initial = Some (main_heap, [Some 0, Some 5])
   \<and> (\<exists>t. is_tree main_heap (Some 5) t \<and> ordered t
         \<and> (\<forall>a \<in> set (addrs t). node_ordered main_heap a))"
proof -
  from ordering_invariant[of main_cmds False]
  have "\<forall>h rs i. run False main_cmds initial = Some (h, rs) \<and> i < length rs \<longrightarrow>
        (\<exists>t. is_tree h (rs ! i) t \<and> ordered t \<and> (\<forall>a \<in> set (addrs t). node_ordered h a))"
    by blast
  from this[rule_format, of main_heap "[Some 0, Some 5]" 1] main_run main_valid
  show ?thesis by simp
qed

text \<open>
  C7. In every state that such a program reaches, in every tree: the parent link of a
  root is null, and at every node the parent link of the left child, if there is one,
  points back to the node, and the same for the right child.
\<close>

theorem parent_links_invariant:
  "\<forall>h rs i. run iter cs initial = Some (h, rs) \<and> i < length rs \<longrightarrow>
     (\<exists>t. is_tree h (rs ! i) t \<and> root_ok h (rs ! i) \<and> (\<forall>a \<in> set (addrs t). links_ok h a))"
proof (intro allI impI)
  fix h rs i
  assume a: "run iter cs initial = Some (h, rs) \<and> i < length rs"
  from run_inv[OF initial_inv[unfolded initial_def], of iter cs "(h, rs)"] a
  obtain ts where "state_inv (h, rs) ts" by (auto simp: initial_def)
  with a have t: "is_tree h (rs ! i) (ts ! i)" by (auto simp: state_inv_def)
  then have "\<forall>a \<in> set (addrs (ts ! i)). links_ok h a"
    by (auto simp: is_tree_def intro: links_ok_rep)
  with t root_ok_tree[OF t]
  show "\<exists>t. is_tree h (rs ! i) t \<and> root_ok h (rs ! i) \<and> (\<forall>a \<in> set (addrs t). links_ok h a)"
    by blast
qed

theorem parent_links_invariant_witness:
  "run False main_cmds initial = Some (main_heap, [Some 0, Some 5])
   \<and> (\<exists>t. is_tree main_heap (Some 5) t \<and> root_ok main_heap (Some 5)
         \<and> (\<forall>a \<in> set (addrs t). links_ok main_heap a))"
  using parent_links_invariant[of False main_cmds, rule_format, of main_heap "[Some 0, Some 5]" 1]
    main_run
  by simp

text \<open>
  C5. \<^verbatim>\<open>remove( Node* )\<close> on a node \<open>a\<close> of a tree that has both children: the loop finds
  the successor \<open>s\<close>, which has no left child and is the first node of the in-order traversal
  of the right subtree; the call returns with the same root; afterwards \<open>a\<close> is still
  allocated, with its links to the left child and the parent as before and with the key and
  the value of \<open>s\<close>; the node \<open>s\<close> is deleted and is no longer in the right subtree of \<open>a\<close>,
  whose traversal is the old one without its first entry; and the in-order sequence of the
  whole tree is the old one without the entry of \<open>a\<close>.
\<close>

theorem remove_two_children:
  assumes "is_tree h rt t" "a \<in> set (addrs t)" "cell h a = Some n"
    "nleft n \<noteq> None" "nright n \<noteq> None"
  shows "\<exists>r s sn rest h' n' xs ys.
     nright n = Some r \<and> succ_loop h r = Some s \<and> cell h s = Some sn \<and> nleft sn = None
     \<and> printInorder h (Some r) = Some ((nkey sn, nvalue sn) # rest)
     \<and> remove_node h rt (Some a) = Some (h', rt)
     \<and> cell h' a = Some n' \<and> nkey n' = nkey sn \<and> nvalue n' = nvalue sn
     \<and> nleft n' = nleft n \<and> nparent n' = nparent n
     \<and> s \<noteq> a \<and> cell h' s = None
     \<and> printInorder h' (nright n') = Some rest
     \<and> is_tree h' rt (del_node a t)
     \<and> printInorder h rt = Some (xs @ (nkey n, nvalue n) # ys)
     \<and> printInorder h' rt = Some (xs @ ys)"
proof -
  from assms(1) have rt: "rt = ptr t" and rp: "rep h None t" and d: "distinct (addrs t)"
    by (simp_all add: is_tree_def)
  from locate_node[OF rp d assms(2)] obtain l k v r p where
    rs: "rep h p (Node l (a, k, v) r)" and ds: "distinct (addrs (Node l (a, k, v) r))"
    and below: "\<forall>b. ptr t = Some b \<longrightarrow> b \<noteq> a \<longrightarrow> b \<notin> set (addrs (Node l (a, k, v) r))"
    by blast
  from rs assms(3) have n: "n = \<lparr>nkey = k, nvalue = v, nleft = ptr l, nright = ptr r, nparent = p\<rparr>"
    and rr: "rep h (Some a) r"
    by simp_all
  from assms(4,5) have nl: "l \<noteq> Leaf" and nr: "r \<noteq> Leaf" by (simp_all add: n)
  from ds have dr: "distinct (addrs r)" and ar: "a \<notin> set (addrs r)" by simp_all
  have rtr: "rt \<notin> Some ` set (addrs r)"
  proof
    assume "rt \<in> Some ` set (addrs r)"
    then obtain b where b: "rt = Some b" "b \<in> set (addrs r)" by auto
    then have "b \<noteq> a" using ar by auto
    with below b rt show False by auto
  qed
  from remove_node_two_children[OF rs ds nl nr rtr] obtain h' s ks vs where
    h': "remove_node h rt (Some a) = Some (h', rt)" "leftmost r = Some (s, ks, vs)"
      "cell h' s = None" "rep h' p (Node l (a, ks, vs) (del_node s r))"
    by blast
  from nr obtain rb where pr: "ptr r = Some rb" by (cases r) auto
  have sl: "succ_loop h rb = Some s" using succ_loop_rep[OF rr pr] h'(2) by simp
  from leftmost_cell[OF rr h'(2)] obtain sr' sp where
    cs: "cell h s = Some \<lparr>nkey = ks, nvalue = vs, nleft = None, nright = sr', nparent = sp\<rparr>"
    by blast
  have sa: "s \<noteq> a" using leftmost_addr[OF h'(2)] ds by auto
  have pi: "printInorder h (Some rb) = Some ((ks, vs) # entries (del_node s r))"
    using printInorder_rep[OF rr] leftmost_entries[OF dr h'(2)] by (simp add: pr)
  from h'(4) have ca': "cell h' a = Some \<lparr>nkey = ks, nvalue = vs, nleft = ptr l,
      nright = ptr (del_node s r), nparent = p\<rparr>"
    and rr': "rep h' (Some a) (del_node s r)" by simp_all
  have pi': "printInorder h' (ptr (del_node s r)) = Some (entries (del_node s r))"
    using rr' by (rule printInorder_rep)
  from remove_node_rep[OF assms(1,2)] h'(1) have tr': "is_tree h' rt (del_node a t)"
    by auto
  from entries_del_node_split[OF rp d assms(2,3)] obtain xs ys where
    sp: "entries t = xs @ (nkey n, nvalue n) # ys" "entries (del_node a t) = xs @ ys"
    by blast
  have fin: "printInorder h rt = Some (xs @ (nkey n, nvalue n) # ys)"
    "printInorder h' rt = Some (xs @ ys)"
    using printInorder_tree[OF assms(1)] printInorder_tree[OF tr'] sp by simp_all
  show ?thesis
    using pr sl cs pi h'(1,3) ca' sa pi' tr' fin
    by (simp add: n) blast
qed

theorem remove_two_children_witness:
  "is_tree grade_heap (Some 0) grade_tree \<and> 1 \<in> set (addrs grade_tree)
   \<and> map_option nkey (cell grade_heap 1) = Some ''Ellen''
   \<and> succ_loop grade_heap 3 = Some 3
   \<and> (\<exists>h' n'. remove_node grade_heap (Some 0) (Some 1) = Some (h', Some 0)
         \<and> cell h' 1 = Some n' \<and> nkey n' = ''Kevin'' \<and> cell h' 3 = None)"
proof -
  have c1: "cell grade_heap 1 =
      Some \<lparr>nkey = ''Ellen'', nvalue = 3.5, nleft = Some 2, nright = Some 3, nparent = Some 0\<rparr>"
    by (simp add: grade_heap_def cell_def)
  have c3: "cell grade_heap 3 =
      Some \<lparr>nkey = ''Kevin'', nvalue = 3.25, nleft = None, nright = Some 4, nparent = Some 1\<rparr>"
    by (simp add: grade_heap_def cell_def)
  have s3: "succ_loop grade_heap 3 = Some 3"
    by (subst succ_loop.simps) (simp add: c3)
  have in1: "1 \<in> set (addrs grade_tree)" by (simp add: grade_tree_def)
  from remove_two_children[OF grade_is_tree in1 c1] s3 c3 c1 in1 grade_is_tree
  show ?thesis by auto
qed

end
